theory Spec2Isabelle
  imports Main "HOL-Library.Multiset"
begin

section \<open>JavaScript values used by the version model\<close>

text \<open>
  The fields \<open>run\<close> and \<open>attempt\<close> of a version are JavaScript numbers (IEEE-754
  doubles).  The only numbers this program computes are the results of
  \<open>parseInt\<close> on a group of decimal digits and the differences of two such results,
  so every finite number that occurs is integer-valued; it is modelled by the integer it
  denotes, next to the two infinities and NaN.
\<close>

datatype number = Finite int | PosInfinity | NegInfinity | NaN

fun bitlen :: "nat \<Rightarrow> nat" where
  "bitlen n = (if n = 0 then 0 else Suc (bitlen (n div 2)))"

declare bitlen.simps [simp del]

text \<open>
  Rounding of a natural number to the nearest double, ties to even: a double carries
  53 significant bits, so a number of more bits loses its low \<open>bitlen n - 53\<close> bits.
\<close>

definition round_to_double :: "nat \<Rightarrow> nat" where
  "round_to_double n =
     (if n < 2 ^ 53 then n
      else let e = bitlen n - 53; q = n div 2 ^ e; r = n mod 2 ^ e; h = 2 ^ (e - 1)
           in if r < h \<or> (r = h \<and> even q) then q * 2 ^ e else (q + 1) * 2 ^ e)"

text \<open>The number value of a mathematical integer: rounded, and infinite from \<open>2 ^ 1024\<close> on.\<close>

definition to_number :: "int \<Rightarrow> number" where
  "to_number i =
     (let m = round_to_double (nat \<bar>i\<bar>)
      in if 2 ^ 1024 \<le> m then (if i < 0 then NegInfinity else PosInfinity)
         else Finite (if i < 0 then - int m else int m))"

text \<open>Subtraction of two numbers (\<open>a - b\<close>): the exact difference, rounded.\<close>

fun num_sub :: "number \<Rightarrow> number \<Rightarrow> number" where
  "num_sub NaN b = NaN"
| "num_sub a NaN = NaN"
| "num_sub PosInfinity PosInfinity = NaN"
| "num_sub NegInfinity NegInfinity = NaN"
| "num_sub PosInfinity b = PosInfinity"
| "num_sub NegInfinity b = NegInfinity"
| "num_sub a PosInfinity = NegInfinity"
| "num_sub a NegInfinity = PosInfinity"
| "num_sub (Finite a) (Finite b) = to_number (a - b)"

text \<open>\<open>Number.isNaN(x)\<close>, \<open>x === 0\<close>, \<open>x < 0\<close> and \<open>x > 0\<close>.\<close>

fun isNaN :: "number \<Rightarrow> bool" where
  "isNaN NaN = True"
| "isNaN x = False"

fun is_zero :: "number \<Rightarrow> bool" where
  "is_zero (Finite i) = (i = 0)"
| "is_zero x = False"

fun is_negative :: "number \<Rightarrow> bool" where
  "is_negative (Finite i) = (i < 0)"
| "is_negative NegInfinity = True"
| "is_negative x = False"

fun is_positive :: "number \<Rightarrow> bool" where
  "is_positive (Finite i) = (0 < i)"
| "is_positive PosInfinity = True"
| "is_positive x = False"

fun is_finite :: "number \<Rightarrow> bool" where
  "is_finite (Finite i) = True"
| "is_finite x = False"

text \<open>
  A value of type \<open>unknown\<close>: a string (a list of characters), or one of the other kinds
  of value that \<open>typeof\<close> tells apart from a string.
\<close>

datatype js_value =
    JString string
  | JNumber number
  | JBoolean bool
  | JNull
  | JUndefined
  | JObject "(string \<times> js_value) list"
  | JArray "js_value list"

section \<open>Version model (version.ts)\<close>

record Version =
  version :: string
  run :: number
  attempt :: number

definition is_digit :: "char \<Rightarrow> bool" where
  "is_digit c = (c \<in> set ''0123456789'')"

definition digit_val :: "char \<Rightarrow> nat" where
  "digit_val c = of_char c - 48"

definition dec_value :: "string \<Rightarrow> nat" where
  "dec_value ds = foldl (\<lambda>a c. 10 * a + digit_val c) 0 ds"

text \<open>
  \<open>parseInt(s, 10)\<close> on a string without leading white space or sign, which is what a
  group matched by \<open>\d+\<close> is: the value of the longest prefix of decimal digits, NaN when
  that prefix is empty.
\<close>

definition parseInt :: "string \<Rightarrow> number" where
  "parseInt s =
     (let ds = takeWhile is_digit s
      in if ds = [] then NaN else to_number (int (dec_value ds)))"

text \<open>
  The regular expression \<open>/^run-(\d+)-(\d+)$/\<close>.  \<open>version_pattern s g1 g2\<close> says that
  the whole of \<open>s\<close> matches with the two groups \<open>g1\<close> and \<open>g2\<close>; \<open>re_exec\<close> is the
  matcher, returning the groups.
\<close>

definition version_pattern :: "string \<Rightarrow> string \<Rightarrow> string \<Rightarrow> bool" where
  "version_pattern s g1 g2 =
     (s = ''run-'' @ g1 @ ''-'' @ g2 \<and> g1 \<noteq> [] \<and> g2 \<noteq> [] \<and>
      list_all is_digit g1 \<and> list_all is_digit g2)"

definition re_exec :: "string \<Rightarrow> (string \<times> string) option" where
  "re_exec s =
     (if take 4 s = ''run-''
      then let rest = drop 4 s;
               g1 = takeWhile is_digit rest;
               rest1 = dropWhile is_digit rest
           in (case rest1 of
                 [] \<Rightarrow> None
               | c # g2 \<Rightarrow>
                   if g1 \<noteq> [] \<and> c = CHR ''-'' \<and> g2 \<noteq> [] \<and> list_all is_digit g2
                   then Some (g1, g2) else None)
      else None)"

definition extractVersion :: "js_value \<Rightarrow> Version option" where
  "extractVersion s =
     (case s of
        JString str \<Rightarrow>
          (case re_exec str of
             Some (g1, g2) \<Rightarrow>
               (let runNum = parseInt g1; attempt = parseInt g2
                in if \<not> isNaN runNum \<and> \<not> isNaN attempt
                   then Some \<lparr>version = str, run = runNum, attempt = attempt\<rparr>
                   else None)
           | None \<Rightarrow> None)
      | _ \<Rightarrow> None)"

definition compareVersions :: "Version \<Rightarrow> Version \<Rightarrow> number" where
  "compareVersions a b =
     (let d = num_sub (run a) (run b)
      in if is_zero d then num_sub (attempt a) (attempt b) else d)"

text \<open>
  The canonical text of a version, in the words of the data model:
  \<open>run-<run>-<attempt>\<close> with both ordinals in decimal.
\<close>

definition digit_char :: "nat \<Rightarrow> char" where
  "digit_char d = ''0123456789'' ! d"

fun dec_string :: "nat \<Rightarrow> string" where
  "dec_string n =
     (if n < 10 then [digit_char n]
      else dec_string (n div 10) @ [digit_char (n mod 10)])"

declare dec_string.simps [simp del]

definition canonical_text :: "nat \<Rightarrow> nat \<Rightarrow> string" where
  "canonical_text r a = ''run-'' @ dec_string r @ ''-'' @ dec_string a"

text \<open>A digit group is the decimal representation of its value when it has no leading zero.\<close>

definition no_leading_zero :: "string \<Rightarrow> bool" where
  "no_leading_zero g = (g = ''0'' \<or> take 1 g \<noteq> ''0'')"

text \<open>
  The ordering of the data model on versions with finite ordinals: \<open>run\<close> first,
  \<open>attempt\<close> to break a tie.
\<close>

fun ordinal :: "number \<Rightarrow> int" where
  "ordinal (Finite i) = i"
| "ordinal x = 0"

definition finite_version :: "Version \<Rightarrow> bool" where
  "finite_version v = (is_finite (run v) \<and> is_finite (attempt v))"

definition version_less :: "Version \<Rightarrow> Version \<Rightarrow> bool" where
  "version_less a b =
     (ordinal (run a) < ordinal (run b) \<or>
      (ordinal (run a) = ordinal (run b) \<and> ordinal (attempt a) < ordinal (attempt b)))"

definition version_equiv :: "Version \<Rightarrow> Version \<Rightarrow> bool" where
  "version_equiv a b =
     (ordinal (run a) = ordinal (run b) \<and> ordinal (attempt a) = ordinal (attempt b))"

section \<open>Bounded concurrency scheduler (parallel.ts)\<close>

text \<open>
  The source is a generator of promises.  A promise handed out by the source is an
  operation that has been started; it settles at most once, fulfilled with a value or
  rejected with a reason, or it stays pending for ever.
\<close>

datatype ('a, 'e) operation = Fulfils 'a | Rejects 'e | Never

codatatype 'p source = Done | Yield 'p "'p source"

text \<open>\<open>source.next()\<close>: the iterator result and the generator afterwards.\<close>

definition source_next :: "'p source \<Rightarrow> 'p option \<times> 'p source" where
  "source_next g = (case g of Done \<Rightarrow> (None, Done) | Yield p g' \<Rightarrow> (Some p, g'))"

primrec of_list :: "'p list \<Rightarrow> 'p source" where
  "of_list [] = Done"
| "of_list (p # ps) = Yield p (of_list ps)"

text \<open>
  An entry of \<open>tasks\<close> (later \<open>tasksAndNull\<close>) is the promise made by \<open>wrap\<close>, or
  \<open>null\<close>.  \<open>wrap\<close> resolves its promise at once when the source is exhausted, and from
  the \<open>then\<close> callback of the operation otherwise.  It installs no rejection handler, so
  the promise wrapped around a rejected operation never settles, like the one around an
  operation that stays pending.
\<close>

datatype ('a, 'e) slot = Task "('a, 'e) operation" | Exhausted | Null

definition wrap :: "('a, 'e) operation option \<Rightarrow> ('a, 'e) slot" where
  "wrap task = (case task of None \<Rightarrow> Exhausted | Some p \<Rightarrow> Task p)"

text \<open>
  The iterator result that the promise in a slot resolves with: \<open>Some None\<close> for
  \<open>done\<close>, \<open>Some (Some v)\<close> for a value, \<open>None\<close> when it never settles.
\<close>

fun settles :: "('a, 'e) slot \<Rightarrow> 'a option option" where
  "settles (Task (Fulfils v)) = Some (Some v)"
| "settles (Task (Rejects e)) = None"
| "settles (Task Never) = None"
| "settles Exhausted = Some None"
| "settles Null = None"

datatype phase = Priming | Racing | Draining | Returned

record ('a, 'e) scheduler =
  max_tasks :: int
  source :: "('a, 'e) operation source"
  tasks :: "('a, 'e) slot list"
  phase :: phase
  yielded :: "'a list"

datatype sched_error = MaxTooSmall

text \<open>The call: \<open>max < 1\<close> throws before the source is touched.\<close>

definition parallelGenerator ::
  "int \<Rightarrow> ('a, 'e) operation source \<Rightarrow> sched_error + ('a, 'e) scheduler" where
  "parallelGenerator mx src =
     (if mx < 1 then Inl MaxTooSmall
      else Inr \<lparr>max_tasks = mx, source = src, tasks = [], phase = Priming, yielded = []\<rparr>)"

text \<open>\<open>wrap(i, source.next())\<close>: pull the source and wrap what it returns.\<close>

definition pull :: "('a, 'e) scheduler \<Rightarrow> ('a, 'e) slot \<times> ('a, 'e) scheduler" where
  "pull s = (let (task, g) = source_next (source s) in (wrap task, s\<lparr>source := g\<rparr>))"

text \<open>
  One iteration of the priming loop
  \<open>for (let i = 0; i < max; i++) tasks.push(wrap(i, source.next()))\<close>, or its exit.
\<close>

definition step_priming :: "('a, 'e) scheduler \<Rightarrow> ('a, 'e) scheduler" where
  "step_priming s =
     (if int (length (tasks s)) < max_tasks s
      then let (w, s') = pull s in s'\<lparr>tasks := tasks s' @ [w]\<rparr>
      else s\<lparr>phase := Racing\<rparr>)"

text \<open>
  \<open>await Promise.race(...)\<close> resolves with the pair \<open>[i, v]\<close> of the promise that
  settles first.  Which one that is depends on the timing of the operations, so the index
  \<open>i\<close> of the winner is chosen from outside; the race can only be won by a slot whose
  promise settles.
\<close>

definition race :: "nat \<Rightarrow> ('a, 'e) slot list \<Rightarrow> 'a option option" where
  "race i ts = (if i < length ts then settles (ts ! i) else None)"

text \<open>One iteration of the main loop \<open>while (true)\<close>, won by slot \<open>i\<close>.\<close>

definition step_racing :: "nat \<Rightarrow> ('a, 'e) scheduler \<Rightarrow> ('a, 'e) scheduler option" where
  "step_racing i s =
     (case race i (tasks s) of
        None \<Rightarrow> None
      | Some None \<Rightarrow> Some (s\<lparr>tasks := (tasks s)[i := Null], phase := Draining\<rparr>)
      | Some (Some v) \<Rightarrow>
          Some (let (w, s') = pull s
                in s'\<lparr>tasks := (tasks s')[i := w], yielded := yielded s' @ [v]\<rparr>))"

text \<open>
  The tail loop \<open>while (filteredTasks.length > 0)\<close>: its exit when every entry is
  \<open>null\<close>, or one iteration won by slot \<open>i\<close>.
\<close>

definition step_draining :: "nat \<Rightarrow> ('a, 'e) scheduler \<Rightarrow> ('a, 'e) scheduler option" where
  "step_draining i s =
     (if filter (\<lambda>t. t \<noteq> Null) (tasks s) = [] then Some (s\<lparr>phase := Returned\<rparr>)
      else (case race i (tasks s) of
              None \<Rightarrow> None
            | Some v \<Rightarrow>
                Some (s\<lparr>tasks := (tasks s)[i := Null],
                        yielded := (case v of None \<Rightarrow> yielded s | Some x \<Rightarrow> yielded s @ [x])\<rparr>)))"

definition sched_step :: "nat \<Rightarrow> ('a, 'e) scheduler \<Rightarrow> ('a, 'e) scheduler option" where
  "sched_step i s =
     (case phase s of
        Priming \<Rightarrow> Some (step_priming s)
      | Racing \<Rightarrow> step_racing i s
      | Draining \<Rightarrow> step_draining i s
      | Returned \<Rightarrow> None)"

text \<open>The executions of the scheduler: every choice of the winner of every race.\<close>

inductive step :: "('a, 'e) scheduler \<Rightarrow> ('a, 'e) scheduler \<Rightarrow> bool" where
  "sched_step i s = Some s' \<Longrightarrow> step s s'"

text \<open>The execution in which the races are won by the slots of the given indices, in turn.\<close>

fun run_choices :: "nat list \<Rightarrow> ('a, 'e) scheduler \<Rightarrow> ('a, 'e) scheduler option" where
  "run_choices [] s = Some s"
| "run_choices (i # js) s =
     (case sched_step i s of None \<Rightarrow> None | Some s' \<Rightarrow> run_choices js s')"

text \<open>
  The operations in flight are those held in the slot table: an operation enters a slot
  when it is pulled, and it leaves the slot when the scheduler takes its result.
\<close>

fun is_task :: "('a, 'e) slot \<Rightarrow> bool" where
  "is_task (Task p) = True"
| "is_task t = False"

definition in_flight :: "('a, 'e) scheduler \<Rightarrow> nat" where
  "in_flight s = length (filter is_task (tasks s))"

fun fulfils :: "('a, 'e) operation \<Rightarrow> bool" where
  "fulfils (Fulfils v) = True"
| "fulfils p = False"

text \<open>
  The consumer \<open>while (!result.done) result = await tasks.next()\<close> drives the generator
  to its end.  \<open>run_to_end\<close> does so with the slot of lowest index winning each race; it
  has no value when the generator never returns.
\<close>

definition auto_step :: "('a, 'e) scheduler \<Rightarrow> ('a, 'e) scheduler option" where
  "auto_step s =
     (case filter (\<lambda>i. sched_step i s \<noteq> None) [0..<Suc (length (tasks s))] of
        [] \<Rightarrow> None
      | i # _ \<Rightarrow> sched_step i s)"

partial_function (option) run_to_end :: "('a, 'e) scheduler \<Rightarrow> 'a list option" where
  "run_to_end s =
     (if phase s = Returned then Some (yielded s)
      else (case auto_step s of None \<Rightarrow> None | Some s' \<Rightarrow> run_to_end s'))"

subsection \<open>Invariants of the slot table\<close>

text \<open>The operations held in the slot table, and the entries that are not \<open>null\<close>.\<close>

fun slot_ops :: "('a, 'e) slot \<Rightarrow> ('a, 'e) operation list" where
  "slot_ops (Task p) = [p]"
| "slot_ops t = []"

definition task_ops :: "('a, 'e) slot list \<Rightarrow> ('a, 'e) operation list" where
  "task_ops ts = concat (map slot_ops ts)"

definition live :: "('a, 'e) slot list \<Rightarrow> ('a, 'e) slot list" where
  "live ts = filter (\<lambda>t. t \<noteq> Null) ts"

text \<open>
  On a source that produces the finite list \<open>ps\<close>: the table never has more than
  \<open>max\<close> entries and has exactly \<open>max\<close> once priming is over; no entry is \<open>null\<close>
  before the tail loop; the source is exhausted once a slot says so; and every operation
  of \<open>ps\<close> is still in the source, or in a slot, or its value has been yielded.
\<close>

definition sched_inv ::
  "int \<Rightarrow> ('a, 'e) operation list \<Rightarrow> ('a, 'e) scheduler \<Rightarrow> bool" where
  "sched_inv mx ps s =
     (1 \<le> mx \<and> max_tasks s = mx \<and> int (length (tasks s)) \<le> mx \<and>
      (phase s \<noteq> Priming \<longrightarrow> int (length (tasks s)) = mx) \<and>
      (phase s = Priming \<or> phase s = Racing \<longrightarrow> Null \<notin> set (tasks s)) \<and>
      (Exhausted \<in> set (tasks s) \<or> phase s = Draining \<or> phase s = Returned \<longrightarrow> source s = Done) \<and>
      (phase s = Returned \<longrightarrow> live (tasks s) = []) \<and>
      (\<exists>rest. source s = of_list rest \<and>
         mset ps = mset (map Fulfils (yielded s)) + mset (task_ops (tasks s)) + mset rest))"

text \<open>The number of loop iterations that remain at most, given what the source still holds.\<close>

fun phase_weight :: "phase \<Rightarrow> nat" where
  "phase_weight Priming = 3"
| "phase_weight Racing = 2"
| "phase_weight Draining = 1"
| "phase_weight Returned = 0"

definition remaining :: "('a, 'e) scheduler \<Rightarrow> ('a, 'e) operation list \<Rightarrow> nat" where
  "remaining s rest =
     length rest + length (task_ops (tasks s)) + length (live (tasks s)) +
     2 * (nat (max_tasks s) - length (tasks s)) + phase_weight (phase s)"

section \<open>Retention pipeline (main.ts)\<close>

subsection \<open>The object store client\<close>

text \<open>
  The requests and responses of the object store client, with the optional fields of
  the responses as options.  Only the fields that the pipeline reads or writes are kept.
\<close>

record HeadObjectOutput =
  ContentType :: "string option"
  CacheControl :: "string option"
  Metadata :: "(string \<rightharpoonup> string) option"

record CopyObjectRequest =
  copy_Bucket :: string
  copy_Key :: string
  CopySource :: string
  copy_ContentType :: "string option"
  copy_CacheControl :: string
  MetadataDirective :: string
  copy_Metadata :: "string \<rightharpoonup> string"
  TaggingDirective :: string
  Tagging :: string

record Tag =
  tag_Key :: "string option"
  tag_Value :: "string option"

record GetObjectTaggingOutput =
  TagSet :: "Tag list option"

record ListObjectsRequest =
  list_Bucket :: string
  list_Prefix :: string
  Delimiter :: "string option"
  Marker :: "string option"
  MaxKeys :: "nat option"

record ObjectEntry =
  entry_Key :: "string option"

record CommonPrefix =
  Prefix :: "string option"

record ListObjectsOutput =
  Contents :: "ObjectEntry list option"
  CommonPrefixes :: "CommonPrefix list option"
  IsTruncated :: "bool option"
  NextMarker :: "string option"

datatype command =
    HeadObjectCommand string string
  | CopyObjectCommand CopyObjectRequest
  | GetObjectTaggingCommand string string
  | ListObjectsCommand ListObjectsRequest

datatype error = ServiceException string | Error string

text \<open>
  The surroundings of the program: the object store behind \<open>client.send\<close>, which answers
  each command with a response or an exception and moves to a new state \<open>'r\<close>; the clock
  read by \<open>new Date().toISOString()\<close>; and the built-in \<open>encodeURIComponent\<close>.
\<close>

record 'r world =
  headObject :: "string \<Rightarrow> string \<Rightarrow> 'r \<Rightarrow> (error + HeadObjectOutput) \<times> 'r"
  copyObject :: "CopyObjectRequest \<Rightarrow> 'r \<Rightarrow> (error + unit) \<times> 'r"
  getObjectTagging :: "string \<Rightarrow> string \<Rightarrow> 'r \<Rightarrow> (error + GetObjectTaggingOutput) \<times> 'r"
  listObjects :: "ListObjectsRequest \<Rightarrow> 'r \<Rightarrow> (error + ListObjectsOutput) \<times> 'r"
  now :: "'r \<Rightarrow> string"
  encodeURIComponent :: "string \<Rightarrow> string"

text \<open>
  The state that the pipeline threads: the store, the commands sent so far, in order, and
  the lines written with \<open>core.info\<close>.
\<close>

record 'r state =
  remote :: 'r
  sent :: "command list"
  info :: "string list"

definition send_head ::
  "'r world \<Rightarrow> string \<Rightarrow> string \<Rightarrow> 'r state \<Rightarrow> (error + HeadObjectOutput) \<times> 'r state" where
  "send_head w bucket key s =
     (let (res, r) = headObject w bucket key (remote s)
      in (res, s\<lparr>remote := r, sent := sent s @ [HeadObjectCommand bucket key]\<rparr>))"

definition send_copy ::
  "'r world \<Rightarrow> CopyObjectRequest \<Rightarrow> 'r state \<Rightarrow> (error + unit) \<times> 'r state" where
  "send_copy w req s =
     (let (res, r) = copyObject w req (remote s)
      in (res, s\<lparr>remote := r, sent := sent s @ [CopyObjectCommand req]\<rparr>))"

definition send_tagging ::
  "'r world \<Rightarrow> string \<Rightarrow> string \<Rightarrow> 'r state \<Rightarrow> (error + GetObjectTaggingOutput) \<times> 'r state" where
  "send_tagging w bucket key s =
     (let (res, r) = getObjectTagging w bucket key (remote s)
      in (res, s\<lparr>remote := r, sent := sent s @ [GetObjectTaggingCommand bucket key]\<rparr>))"

definition send_list ::
  "'r world \<Rightarrow> ListObjectsRequest \<Rightarrow> 'r state \<Rightarrow> (error + ListObjectsOutput) \<times> 'r state" where
  "send_list w req s =
     (let (res, r) = listObjects w req (remote s)
      in (res, s\<lparr>remote := r, sent := sent s @ [ListObjectsCommand req]\<rparr>))"


subsection \<open>String operations\<close>

text \<open>\<open>s.split(d)\<close> for a one-character separator, and \<open>parts.join(sep)\<close>.\<close>

fun split_on :: "char \<Rightarrow> string \<Rightarrow> string list" where
  "split_on d [] = [[]]"
| "split_on d (c # cs) =
     (if c = d then [] # split_on d cs
      else (case split_on d cs of [] \<Rightarrow> [[c]] | p # ps \<Rightarrow> (c # p) # ps))"

fun join_with :: "string \<Rightarrow> string list \<Rightarrow> string" where
  "join_with sep [] = []"
| "join_with sep [p] = p"
| "join_with sep (p # q # ps) = p @ sep @ join_with sep (q # ps)"


subsection \<open>Marking one object\<close>

definition default_cache_control :: string where
  "default_cache_control = ''max-age=0, stale-while-revalidate=86400''"

definition mark_request ::
  "'r world \<Rightarrow> string \<Rightarrow> string \<Rightarrow> HeadObjectOutput \<Rightarrow> string \<Rightarrow> CopyObjectRequest" where
  "mark_request w bucket key data timestamp =
     \<lparr>copy_Bucket = bucket,
      copy_Key = key,
      CopySource = bucket @ ''/'' @
        join_with ''/'' (map (encodeURIComponent w) (split_on CHR ''/'' key)),
      copy_ContentType = ContentType data,
      copy_CacheControl =
        (case CacheControl data of None \<Rightarrow> default_cache_control | Some c \<Rightarrow> c),
      MetadataDirective = ''REPLACE'',
      copy_Metadata =
        (case Metadata data of None \<Rightarrow> Map.empty | Some m \<Rightarrow> m)(''old-at'' \<mapsto> timestamp),
      TaggingDirective = ''REPLACE'',
      Tagging = ''old=true''\<rparr>"

definition keyTaggedAsOld ::
  "'r world \<Rightarrow> string \<Rightarrow> string \<Rightarrow> 'r state \<Rightarrow> (error + unit) \<times> 'r state" where
  "keyTaggedAsOld w bucket key s =
     (case send_head w bucket key s of
        (Inl e, s1) \<Rightarrow> (Inl e, s1)
      | (Inr data, s1) \<Rightarrow>
          send_copy w (mark_request w bucket key data (now w (remote s1))) s1)"



subsection \<open>Marking the objects of a prefix\<close>











subsection \<open>Listing the versions\<close>





subsection \<open>Marking the old versions\<close>






subsection \<open>Observations on a run\<close>


subsection \<open>A model of the object store\<close>

text \<open>
  Modelled from the spec: the remote object store, which is outside the repository.  The
  specification gives its interface: reading the content type, cache control and custom
  metadata of an object, which fails when the object is absent; a copy in place, which
  rewrites metadata and tags and refreshes the last-modified time of the object; reading
  the tags; and listing the keys below a prefix, grouped at a delimiter if one is given.
  One bucket is modelled, with its objects in listing order; a listing comes as a single
  page, cut only by \<open>MaxKeys\<close>.
\<close>

record s3_object =
  body :: string
  content_type :: "string option"
  cache_control :: "string option"
  custom_metadata :: "string \<rightharpoonup> string"
  tag_set :: "(string \<times> string) list"
  last_modified :: string

record store =
  bucket_name :: string
  objects :: "(string \<times> s3_object) list"
  clock :: string

definition store_head ::
  "string \<Rightarrow> string \<Rightarrow> store \<Rightarrow> (error + HeadObjectOutput) \<times> store" where
  "store_head bucket key st =
     (if bucket \<noteq> bucket_name st then (Inl (ServiceException ''NoSuchBucket''), st)
      else (case map_of (objects st) key of
              None \<Rightarrow> (Inl (ServiceException ''NotFound''), st)
            | Some obj \<Rightarrow>
                (Inr \<lparr>ContentType = content_type obj, CacheControl = cache_control obj,
                      Metadata = Some (custom_metadata obj)\<rparr>, st)))"

text \<open>The tag set written as \<open>name=value\<close> pairs joined by \<open>&\<close>.\<close>

definition parse_tagging :: "string \<Rightarrow> (string \<times> string) list" where
  "parse_tagging t =
     map (\<lambda>kv. (takeWhile (\<lambda>c. c \<noteq> CHR ''='') kv, drop 1 (dropWhile (\<lambda>c. c \<noteq> CHR ''='') kv)))
         (filter (\<lambda>kv. kv \<noteq> []) (split_on CHR ''&'' t))"

definition copy_in_place :: "CopyObjectRequest \<Rightarrow> string \<Rightarrow> s3_object \<Rightarrow> s3_object" where
  "copy_in_place req time obj =
     obj\<lparr>content_type := (if MetadataDirective req = ''REPLACE'' then copy_ContentType req
                           else content_type obj),
         cache_control := (if MetadataDirective req = ''REPLACE'' then Some (copy_CacheControl req)
                            else cache_control obj),
         custom_metadata := (if MetadataDirective req = ''REPLACE'' then copy_Metadata req
                              else custom_metadata obj),
         tag_set := (if TaggingDirective req = ''REPLACE'' then parse_tagging (Tagging req)
                      else tag_set obj),
         last_modified := time\<rparr>"

text \<open>
  Only the copy of an object onto itself is modelled: the source named by \<open>CopySource\<close>
  has to be the destination, bucket and encoded key.
\<close>

definition store_copy ::
  "(string \<Rightarrow> string) \<Rightarrow> CopyObjectRequest \<Rightarrow> store \<Rightarrow> (error + unit) \<times> store" where
  "store_copy enc req st =
     (if copy_Bucket req \<noteq> bucket_name st then (Inl (ServiceException ''NoSuchBucket''), st)
      else if CopySource req \<noteq>
                copy_Bucket req @ ''/'' @ join_with ''/'' (map enc (split_on CHR ''/'' (copy_Key req)))
      then (Inl (ServiceException ''NotImplemented''), st)
      else (case map_of (objects st) (copy_Key req) of
              None \<Rightarrow> (Inl (ServiceException ''NoSuchKey''), st)
            | Some obj \<Rightarrow>
                (Inr (),
                 st\<lparr>objects :=
                      map (\<lambda>(k, x). if k = copy_Key req then (k, copy_in_place req (clock st) x)
                                     else (k, x))
                          (objects st)\<rparr>)))"

definition store_tags ::
  "string \<Rightarrow> string \<Rightarrow> store \<Rightarrow> (error + GetObjectTaggingOutput) \<times> store" where
  "store_tags bucket key st =
     (if bucket \<noteq> bucket_name st then (Inl (ServiceException ''NoSuchBucket''), st)
      else (case map_of (objects st) key of
              None \<Rightarrow> (Inl (ServiceException ''NoSuchKey''), st)
            | Some obj \<Rightarrow>
                (Inr \<lparr>TagSet = Some (map (\<lambda>(k, v). \<lparr>tag_Key = Some k, tag_Value = Some v\<rparr>)
                                         (tag_set obj))\<rparr>, st)))"

definition after_marker :: "string option \<Rightarrow> string list \<Rightarrow> string list" where
  "after_marker marker keys =
     (case marker of
        None \<Rightarrow> keys
      | Some m \<Rightarrow> if m \<in> set keys then drop 1 (dropWhile (\<lambda>k. k \<noteq> m) keys) else keys)"

definition group_of :: "string \<Rightarrow> string option \<Rightarrow> string \<Rightarrow> string option" where
  "group_of prefix delimiter key =
     (case delimiter of
        None \<Rightarrow> None
      | Some d \<Rightarrow>
          (let rest = drop (length prefix) key
           in if d \<noteq> [] \<and> hd d \<in> set rest
              then Some (prefix @ takeWhile (\<lambda>c. c \<noteq> hd d) rest @ [hd d]) else None))"

definition store_list ::
  "ListObjectsRequest \<Rightarrow> store \<Rightarrow> (error + ListObjectsOutput) \<times> store" where
  "store_list req st =
     (if list_Bucket req \<noteq> bucket_name st then (Inl (ServiceException ''NoSuchBucket''), st)
      else
        (let keys = after_marker (Marker req)
                      (filter (\<lambda>k. take (length (list_Prefix req)) k = list_Prefix req)
                              (map fst (objects st)));
             plain = filter (\<lambda>k. group_of (list_Prefix req) (Delimiter req) k = None) keys;
             groups = remdups (List.map_filter (group_of (list_Prefix req) (Delimiter req)) keys);
             page = (case MaxKeys req of None \<Rightarrow> plain | Some n \<Rightarrow> take n plain)
         in (Inr \<lparr>Contents = (if page = [] then None
                                else Some (map (\<lambda>k. \<lparr>entry_Key = Some k\<rparr>) page)),
                   CommonPrefixes = (if groups = [] then None
                                      else Some (map (\<lambda>p. \<lparr>Prefix = Some p\<rparr>) groups)),
                   IsTruncated = Some (length page < length plain),
                   NextMarker = None\<rparr>, st)))"

definition store_world :: "(string \<Rightarrow> string) \<Rightarrow> store world" where
  "store_world enc =
     \<lparr>headObject = store_head, copyObject = store_copy enc, getObjectTagging = store_tags,
      listObjects = store_list, now = clock, encodeURIComponent = enc\<rparr>"

text \<open>The object stored under a key, and the effect of marking on one object.\<close>

definition object_at :: "store \<Rightarrow> string \<Rightarrow> s3_object option" where
  "object_at st key = map_of (objects st) key"

definition marked_object :: "string \<Rightarrow> s3_object \<Rightarrow> s3_object" where
  "marked_object time obj =
     obj\<lparr>cache_control :=
           Some (case cache_control obj of None \<Rightarrow> default_cache_control | Some c \<Rightarrow> c),
         custom_metadata := (custom_metadata obj)(''old-at'' \<mapsto> time),
         tag_set := [(''old'', ''true'')],
         last_modified := time\<rparr>"

subsection \<open>Pages with absent fields\<close>



subsection \<open>What a run asks of the store\<close>

text \<open>The prefixes of the listing requests among some commands.\<close>

fun listed_prefix :: "command \<Rightarrow> string list" where
  "listed_prefix (ListObjectsCommand req) = [list_Prefix req]"
| "listed_prefix c = []"

definition listed_prefixes :: "command list \<Rightarrow> string list" where
  "listed_prefixes cmds = concat (map listed_prefix cmds)"


subsection \<open>An example store\<close>

text \<open>
  A folder \<open>f\<close> of bucket \<open>b\<close> with the pointer object and one object for each of
  three versions; the pointer names \<open>run-1-2\<close>.
\<close>

definition example_object :: "string \<Rightarrow> s3_object" where
  "example_object content =
     \<lparr>body = content, content_type = Some ''text/plain'', cache_control = None,
      custom_metadata = [''custom-key'' \<mapsto> ''custom-value''], tag_set = [],
      last_modified = ''2025-01-01T00:00:00.000Z''\<rparr>"

definition pointer_object :: s3_object where
  "pointer_object =
     \<lparr>body = ''<!doctype html><title>?</title>'', content_type = Some ''text/html'',
      cache_control = None, custom_metadata = [''pointer'' \<mapsto> ''run-1-2''], tag_set = [],
      last_modified = ''2025-01-01T00:00:00.000Z''\<rparr>"

definition example_store :: store where
  "example_store =
     \<lparr>bucket_name = ''b'',
      objects = [(''f/index.html'', pointer_object),
                 (''f/run-1-1/a'', example_object ''one''),
                 (''f/run-1-2/a'', example_object ''two''),
                 (''f/run-2-1/a'', example_object ''three'')],
      clock = ''2025-06-01T12:00:00.000Z''\<rparr>"

definition example_world :: "store world" where
  "example_world = store_world (\<lambda>s. s)"


section \<open>Properties of the version model\<close>

subsection \<open>Rounding and the sign of a difference\<close>

lemma bitlen_bounds: "0 < n \<Longrightarrow> 2 ^ (bitlen n - 1) \<le> n \<and> n < 2 ^ bitlen n"
proof (induction n rule: bitlen.induct)
  case (1 n)
  show ?case
  proof (cases "n div 2 = 0")
    case True
    with 1 have "n = 1" by presburger
    then show ?thesis by (simp add: bitlen.simps)
  next
    case False
    then have pos: "0 < n div 2" by simp
    with 1 have IH: "2 ^ (bitlen (n div 2) - 1) \<le> n div 2 \<and> n div 2 < 2 ^ bitlen (n div 2)" by simp
    have bl: "bitlen n = Suc (bitlen (n div 2))" using 1 by (subst bitlen.simps) simp
    have bpos: "0 < bitlen (n div 2)" using pos by (subst bitlen.simps) simp
    then obtain k where k: "bitlen (n div 2) = Suc k" by (cases "bitlen (n div 2)") auto
    from IH k have "2 ^ k \<le> n div 2" "n div 2 < 2 ^ Suc k" by auto
    then have "2 * 2 ^ k \<le> n" "n < 2 * 2 ^ Suc k" by presburger+
    then show ?thesis using bl k by simp
  qed
qed

lemma bitlen_eq: "2 ^ k \<le> n \<Longrightarrow> n < 2 ^ Suc k \<Longrightarrow> bitlen n = Suc k"
proof -
  assume a: "2 ^ k \<le> n" "n < 2 ^ Suc k"
  then have "0 < n" by (metis less_le_trans zero_less_numeral zero_less_power)
  from bitlen_bounds[OF this] have b: "2 ^ (bitlen n - 1) \<le> n" "n < 2 ^ bitlen n" by auto
  from a(1) b(2) have "(2::nat) ^ k < 2 ^ bitlen n" by linarith
  then have "k < bitlen n" using power_less_imp_less_exp[of 2 k "bitlen n"] by simp
  moreover from b(1) a(2) have "(2::nat) ^ (bitlen n - 1) < 2 ^ Suc k" by linarith
  then have "bitlen n - 1 < Suc k" using power_less_imp_less_exp[of 2 "bitlen n - 1" "Suc k"] by simp
  ultimately show ?thesis by linarith
qed

lemma bitlen_gt: "2 ^ k \<le> n \<Longrightarrow> k < bitlen n"
proof -
  assume a: "2 ^ k \<le> n"
  then have "0 < n" by (metis less_le_trans zero_less_numeral zero_less_power)
  from bitlen_bounds[OF this] have "n < 2 ^ bitlen n" by simp
  with a have "(2::nat) ^ k < 2 ^ bitlen n" by linarith
  then show ?thesis using power_less_imp_less_exp[of 2 k "bitlen n"] by simp
qed

lemma round_to_double_small: "n < 2 ^ 53 \<Longrightarrow> round_to_double n = n"
  by (simp add: round_to_double_def)

lemma round_to_double_lower:
  assumes "2 ^ 53 \<le> n"
  shows "2 ^ (bitlen n - 1) \<le> round_to_double n"
proof -
  define e where "e = bitlen n - 53"
  define q where "q = n div 2 ^ e"
  from assms have npos: "0 < n" by (metis less_le_trans zero_less_numeral zero_less_power)
  from bitlen_gt[OF assms] have bl: "53 < bitlen n" .
  then have split: "bitlen n - 1 = 52 + e" by (simp add: e_def)
  from bitlen_bounds[OF npos] have "2 ^ (bitlen n - 1) \<le> n" by blast
  then have "2 ^ (52 + e) \<le> n" by (simp only: split)
  then have "(2::nat) ^ 52 * 2 ^ e \<le> n" by (simp add: power_add)
  then have "2 ^ 52 \<le> q" unfolding q_def
    by (metis div_le_mono nonzero_mult_div_cancel_right power_not_zero zero_neq_numeral)
  then have qe: "(2::nat) ^ 52 * 2 ^ e \<le> q * 2 ^ e" by simp
  have "q * 2 ^ e \<le> round_to_double n"
    using assms by (simp add: round_to_double_def Let_def e_def[symmetric] q_def[symmetric])
  with qe have "(2::nat) ^ 52 * 2 ^ e \<le> round_to_double n" by (rule order_trans)
  then have "(2::nat) ^ (52 + e) \<le> round_to_double n" by (simp only: power_add)
  then show ?thesis by (simp only: split)
qed

lemma round_to_double_pos: "0 < n \<Longrightarrow> 0 < round_to_double n"
proof (cases "n < 2 ^ 53")
  case True
  assume "0 < n"
  with True show ?thesis by (simp add: round_to_double_small)
next
  case False
  then have "2 ^ 53 \<le> n" by simp
  from round_to_double_lower[OF this] show ?thesis
    by (metis less_le_trans zero_less_numeral zero_less_power)
qed

lemma round_to_double_overflow: "2 ^ 1024 \<le> n \<Longrightarrow> 2 ^ 1024 \<le> round_to_double n"
proof -
  assume a: "2 ^ 1024 \<le> n"
  then have "(2::nat) ^ 53 \<le> n" by (rule order_trans[rotated]) simp
  from round_to_double_lower[OF this] have l: "2 ^ (bitlen n - 1) \<le> round_to_double n" .
  from bitlen_gt[OF a] have "1024 \<le> bitlen n - 1" by simp
  then have "(2::nat) ^ 1024 \<le> 2 ^ (bitlen n - 1)" by (rule power_increasing) simp
  with l show ?thesis by linarith
qed

lemma to_number_cases:
  "(\<exists>j. to_number i = Finite j \<and> (j = 0) = (i = 0) \<and> (j < 0) = (i < 0)) \<or>
   (to_number i = PosInfinity \<and> 0 < i) \<or> (to_number i = NegInfinity \<and> i < 0)"
proof -
  define m where "m = round_to_double (nat \<bar>i\<bar>)"
  have m0: "(m = 0) = (i = 0)"
  proof (cases "i = 0")
    case True
    then show ?thesis by (simp add: m_def round_to_double_small)
  next
    case False
    then have "0 < nat \<bar>i\<bar>" by simp
    from round_to_double_pos[OF this] False show ?thesis by (simp add: m_def)
  qed
  show ?thesis
  proof (cases "2 ^ 1024 \<le> m")
    case True
    then have "m \<noteq> 0" by (metis not_less zero_less_numeral zero_less_power le_zero_eq)
    with m0 have "i \<noteq> 0" by simp
    with True show ?thesis
      by (cases "i < 0") (simp_all only: to_number_def Let_def m_def[symmetric] if_True if_False, auto)
  next
    case False
    then have "to_number i = Finite (if i < 0 then - int m else int m)"
      by (simp only: to_number_def Let_def m_def[symmetric] if_False)
    with m0 show ?thesis by auto
  qed
qed

lemma is_zero_to_number [simp]: "is_zero (to_number i) = (i = 0)"
  using to_number_cases[of i] by auto

lemma is_negative_to_number [simp]: "is_negative (to_number i) = (i < 0)"
  using to_number_cases[of i] by auto

lemma is_positive_to_number [simp]: "is_positive (to_number i) = (0 < i)"
  using to_number_cases[of i] by auto

lemma isNaN_to_number [simp]: "\<not> isNaN (to_number i)"
  using to_number_cases[of i] by auto

lemma to_number_exact: "\<bar>i\<bar> < 2 ^ 53 \<Longrightarrow> to_number i = Finite i"
proof -
  assume a: "\<bar>i\<bar> < 2 ^ 53"
  then have n: "nat \<bar>i\<bar> < 2 ^ 53" by (simp add: nat_less_iff)
  then have "nat \<bar>i\<bar> < 2 ^ 1024" by (rule less_le_trans) simp
  with n show ?thesis by (auto simp: to_number_def Let_def round_to_double_small)
qed

lemma not_digit_dash [simp]: "\<not> is_digit CHR ''-''"
  by (simp add: is_digit_def)

lemma re_exec_Some_iff: "re_exec s = Some (g1, g2) \<longleftrightarrow> version_pattern s g1 g2"
proof
  assume a: "re_exec s = Some (g1, g2)"
  then have t: "take 4 s = ''run-''" by (simp add: re_exec_def split: if_splits)
  define rest where "rest = drop 4 s"
  from a t obtain c where
    r1: "dropWhile is_digit rest = c # g2" and g1: "g1 = takeWhile is_digit rest"
    and ne: "g1 \<noteq> []" and c: "c = CHR ''-''" and g2: "g2 \<noteq> []" "list_all is_digit g2"
    by (auto simp: re_exec_def Let_def rest_def split: list.splits if_splits)
  have "s = take 4 s @ drop 4 s" by simp
  also have "drop 4 s = takeWhile is_digit rest @ dropWhile is_digit rest" by (simp add: rest_def)
  finally have "s = ''run-'' @ g1 @ ''-'' @ g2" using t r1 g1 c by simp
  moreover have "list_all is_digit g1" unfolding g1 list_all_iff by (auto dest: set_takeWhileD)
  ultimately show "version_pattern s g1 g2" using ne g2 by (simp add: version_pattern_def)
next
  assume "version_pattern s g1 g2"
  then have s: "s = ''run-'' @ g1 @ ''-'' @ g2" and ne: "g1 \<noteq> []" "g2 \<noteq> []"
    and d: "list_all is_digit g1" "list_all is_digit g2"
    by (simp_all add: version_pattern_def)
  from d(1) have tw: "takeWhile is_digit (g1 @ CHR ''-'' # g2) = g1"
    by (simp add: list_all_iff takeWhile_tail)
  from d(1) have dw: "dropWhile is_digit (g1 @ CHR ''-'' # g2) = CHR ''-'' # g2"
    by (simp add: list_all_iff dropWhile_append2)
  show "re_exec s = Some (g1, g2)"
    using ne d(2) by (simp add: re_exec_def s tw dw)
qed

lemma parseInt_digits:
  "list_all is_digit g \<Longrightarrow> g \<noteq> [] \<Longrightarrow> parseInt g = to_number (int (dec_value g))"
proof -
  assume "list_all is_digit g" "g \<noteq> []"
  then have tw: "takeWhile is_digit g = g" by (simp add: list_all_iff)
  show ?thesis unfolding parseInt_def Let_def tw using \<open>g \<noteq> []\<close> by simp
qed

lemma extractVersion_Some_iff:
  "extractVersion x = Some v \<longleftrightarrow>
     (\<exists>s g1 g2. x = JString s \<and> version_pattern s g1 g2 \<and>
        v = \<lparr>version = s, run = to_number (int (dec_value g1)),
             attempt = to_number (int (dec_value g2))\<rparr>)"
proof
  assume a: "extractVersion x = Some v"
  then obtain s where x: "x = JString s" by (cases x) (simp_all add: extractVersion_def)
  with a obtain g1 g2 where r: "re_exec s = Some (g1, g2)"
    by (cases "re_exec s") (auto simp: extractVersion_def)
  then have p: "version_pattern s g1 g2" by (simp add: re_exec_Some_iff)
  then have "parseInt g1 = to_number (int (dec_value g1))" "parseInt g2 = to_number (int (dec_value g2))"
    by (simp_all add: version_pattern_def parseInt_digits)
  with a x r have "v = \<lparr>version = s, run = to_number (int (dec_value g1)),
             attempt = to_number (int (dec_value g2))\<rparr>"
    by (simp add: extractVersion_def Let_def)
  with x p show "\<exists>s g1 g2. x = JString s \<and> version_pattern s g1 g2 \<and>
        v = \<lparr>version = s, run = to_number (int (dec_value g1)),
             attempt = to_number (int (dec_value g2))\<rparr>" by blast
next
  assume "\<exists>s g1 g2. x = JString s \<and> version_pattern s g1 g2 \<and>
        v = \<lparr>version = s, run = to_number (int (dec_value g1)),
             attempt = to_number (int (dec_value g2))\<rparr>"
  then obtain s g1 g2 where x: "x = JString s" and p: "version_pattern s g1 g2"
    and v: "v = \<lparr>version = s, run = to_number (int (dec_value g1)),
             attempt = to_number (int (dec_value g2))\<rparr>" by blast
  from p have r: "re_exec s = Some (g1, g2)" by (simp add: re_exec_Some_iff)
  from p have "parseInt g1 = to_number (int (dec_value g1))" "parseInt g2 = to_number (int (dec_value g2))"
    by (simp_all add: version_pattern_def parseInt_digits)
  then show "extractVersion x = Some v" using x r v by (simp add: extractVersion_def Let_def)
qed

lemma compareVersions_finite:
  assumes "finite_version a" "finite_version b"
  shows "is_negative (compareVersions a b) = version_less a b"
    and "is_zero (compareVersions a b) = version_equiv a b"
    and "is_positive (compareVersions a b) = version_less b a"
proof -
  from assms obtain ra aa rb ab where
    "run a = Finite ra" "attempt a = Finite aa" "run b = Finite rb" "attempt b = Finite ab"
    unfolding finite_version_def
    by (metis is_finite.elims(2))
  then show "is_negative (compareVersions a b) = version_less a b"
    and "is_zero (compareVersions a b) = version_equiv a b"
    and "is_positive (compareVersions a b) = version_less b a"
    by (auto simp: compareVersions_def Let_def version_less_def version_equiv_def)
qed

lemma digit_roundtrip: "is_digit c \<Longrightarrow> digit_val c < 10 \<and> digit_char (digit_val c) = c"
  by (auto simp: is_digit_def digit_val_def digit_char_def)

lemma digit_val_zero: "is_digit c \<Longrightarrow> digit_val c = 0 \<Longrightarrow> c = CHR ''0''"
  by (auto simp: is_digit_def digit_val_def)

lemma dec_value_snoc: "dec_value (ds @ [c]) = 10 * dec_value ds + digit_val c"
  by (simp add: dec_value_def)

lemma foldl_dec_ge: "a \<le> foldl (\<lambda>a c. 10 * a + digit_val c) a ds"
proof (induction ds arbitrary: a)
  case Nil
  show ?case by simp
next
  case (Cons d ds)
  have "a \<le> 10 * a + digit_val d" by simp
  also have "\<dots> \<le> foldl (\<lambda>a c. 10 * a + digit_val c) (10 * a + digit_val d) ds" by (rule Cons.IH)
  finally show ?case by simp
qed

lemma dec_value_pos:
  assumes "list_all is_digit ds" "ds \<noteq> []" "take 1 ds \<noteq> ''0''"
  shows "0 < dec_value ds"
proof -
  from assms(2) obtain h t where ds: "ds = h # t" by (cases ds) auto
  with assms have "is_digit h" "h \<noteq> CHR ''0''" by auto
  then have "0 < digit_val h" using digit_val_zero by fastforce
  also have "digit_val h \<le> dec_value ds" using foldl_dec_ge[of "digit_val h" t]
    by (simp add: dec_value_def ds)
  finally show ?thesis .
qed

lemma dec_string_dec_value:
  "list_all is_digit g \<Longrightarrow> g \<noteq> [] \<Longrightarrow> no_leading_zero g \<Longrightarrow> dec_string (dec_value g) = g"
proof (induction g rule: rev_induct)
  case Nil
  then show ?case by simp
next
  case (snoc c ds)
  from snoc.prems have c: "is_digit c" and dds: "list_all is_digit ds" by simp_all
  note rt = digit_roundtrip[OF c]
  show ?case
  proof (cases "ds = []")
    case True
    with rt show ?thesis by (simp add: dec_value_def dec_string.simps)
  next
    case False
    with snoc.prems(3) have nz: "take 1 ds \<noteq> ''0''"
      by (cases ds) (auto simp: no_leading_zero_def)
    then have nl: "no_leading_zero ds" by (simp add: no_leading_zero_def)
    from dec_value_pos[OF dds False nz] have pos: "0 < dec_value ds" .
    have IH: "dec_string (dec_value ds) = ds" using snoc.IH dds False nl by simp
    have v: "dec_value (ds @ [c]) = 10 * dec_value ds + digit_val c" by (rule dec_value_snoc)
    from pos have big: "\<not> 10 * dec_value ds + digit_val c < 10" by simp
    from rt have dv: "(10 * dec_value ds + digit_val c) div 10 = dec_value ds"
      and md: "(10 * dec_value ds + digit_val c) mod 10 = digit_val c" by simp_all
    show ?thesis
      unfolding v by (subst dec_string.simps) (simp only: big if_False dv md IH rt)
  qed
qed

lemma foldl_dec_zeros:
  "foldl (\<lambda>a c. 10 * a + digit_val c) a (replicate n CHR ''0'') = a * 10 ^ n"
  by (induction n arbitrary: a) (simp_all add: digit_val_def)

subsection \<open>Parsing\<close>

text \<open>
  C6: \<open>extractVersion\<close> succeeds exactly on the strings that match the anchored pattern
  \<open>run-<digits>-<digits>\<close> as a whole (the NaN test after \<open>parseInt\<close> never
  rejects such a string), and it returns no value on a number, a boolean, \<open>null\<close>,
  \<open>undefined\<close>, an object, an array and the empty string.
\<close>

theorem extractVersion_accepts_exactly_pattern:
  "((\<exists>v. extractVersion x = Some v) \<longleftrightarrow> (\<exists>s g1 g2. x = JString s \<and> version_pattern s g1 g2)) \<and>
   extractVersion (JNumber n) = None \<and> extractVersion (JBoolean b) = None \<and>
   extractVersion JNull = None \<and> extractVersion JUndefined = None \<and>
   extractVersion (JObject fs) = None \<and> extractVersion (JArray xs) = None \<and>
   extractVersion (JString []) = None"
proof -
  have "(\<exists>v. extractVersion x = Some v) \<longleftrightarrow> (\<exists>s g1 g2. x = JString s \<and> version_pattern s g1 g2)"
    unfolding extractVersion_Some_iff by blast
  moreover have "extractVersion (JString []) = None"
    by (simp add: extractVersion_def re_exec_def)
  ultimately show ?thesis by (simp add: extractVersion_def)
qed

theorem extractVersion_accepts_exactly_pattern_witness:
  "(\<exists>v. extractVersion (JString ''run-123-4'') = Some v) \<and>
   extractVersion (JArray [JString ''run-123-4'']) = None"
proof -
  have "version_pattern ''run-123-4'' ''123'' ''4''"
    by (simp add: version_pattern_def is_digit_def)
  then show ?thesis
    using extractVersion_accepts_exactly_pattern[of "JString ''run-123-4''" undefined undefined undefined "[JString ''run-123-4'']"]
    by blast
qed

text \<open>
  C8 as stated fails: a digit group above \<open>2 ^ 53\<close> is accepted and rounded, so the
  component differs from the decimal value of the group.
\<close>

theorem extractVersion_inexact_counterexample:
  "extractVersion (JString ''run-9007199254740993-1'') =
     Some \<lparr>version = ''run-9007199254740993-1'', run = Finite 9007199254740992, attempt = Finite 1\<rparr> \<and>
   dec_value ''9007199254740993'' = 9007199254740993"
proof -
  have b: "bitlen 9007199254740993 = 54"
    using bitlen_eq[of 53 9007199254740993] by simp
  have r: "round_to_double 9007199254740993 = 9007199254740992"
    by (simp add: round_to_double_def b Let_def)
  have d: "dec_value ''9007199254740993'' = 9007199254740993"
    by (simp add: dec_value_def digit_val_def)
  have d1: "dec_value ''1'' = 1"
    by (simp add: dec_value_def digit_val_def)
  have re: "re_exec ''run-9007199254740993-1'' = Some (''9007199254740993'', ''1'')"
    by (simp add: re_exec_def is_digit_def)
  have p: "parseInt ''9007199254740993'' = Finite 9007199254740992"
    by (simp add: parseInt_def is_digit_def d to_number_def r)
  have p1: "parseInt ''1'' = Finite 1"
    using to_number_exact[of 1] by (simp add: parseInt_def is_digit_def d1)
  show ?thesis
    by (simp add: extractVersion_def re p p1 d)
qed

text \<open>
  C8, amended: on every string that \<open>extractVersion\<close> accepts, each component is the
  double nearest to the decimal value of its digit group; it is never NaN and never
  negative, it is exactly the decimal value when that is below \<open>2 ^ 53\<close>, and it is
  \<open>Infinity\<close> when the value reaches \<open>2 ^ 1024\<close>.  No input is rejected for the size
  of its digit groups.
\<close>

theorem extractVersion_components:
  assumes "extractVersion (JString s) = Some v" and "version_pattern s g1 g2"
  shows "run v = to_number (int (dec_value g1)) \<and> attempt v = to_number (int (dec_value g2)) \<and>
     \<not> isNaN (run v) \<and> \<not> isNaN (attempt v) \<and>
     \<not> is_negative (run v) \<and> \<not> is_negative (attempt v) \<and>
     (dec_value g1 < 2 ^ 53 \<longrightarrow> run v = Finite (int (dec_value g1))) \<and>
     (dec_value g2 < 2 ^ 53 \<longrightarrow> attempt v = Finite (int (dec_value g2))) \<and>
     (2 ^ 1024 \<le> dec_value g1 \<longrightarrow> run v = PosInfinity) \<and>
     (2 ^ 1024 \<le> dec_value g2 \<longrightarrow> attempt v = PosInfinity)"
proof -
  from assms(2) have "re_exec s = Some (g1, g2)" by (simp add: re_exec_Some_iff)
  moreover from assms(2) have "parseInt g1 = to_number (int (dec_value g1))"
    "parseInt g2 = to_number (int (dec_value g2))"
    by (simp_all add: version_pattern_def parseInt_digits)
  ultimately have v: "run v = to_number (int (dec_value g1))" "attempt v = to_number (int (dec_value g2))"
    using assms(1) by (auto simp: extractVersion_def Let_def)
  have ex: "n < 2 ^ 53 \<Longrightarrow> to_number (int n) = Finite (int n)" for n :: nat
    using to_number_exact[of "int n"] by simp
  have inf: "2 ^ 1024 \<le> n \<Longrightarrow> to_number (int n) = PosInfinity" for n :: nat
    using round_to_double_overflow[of n] by (simp add: to_number_def Let_def)
  show ?thesis unfolding v using ex inf by simp
qed

theorem extractVersion_components_witness:
  "extractVersion (JString ''run-999999-888888'') =
     Some \<lparr>version = ''run-999999-888888'', run = Finite 999999, attempt = Finite 888888\<rparr> \<and>
   version_pattern ''run-999999-888888'' ''999999'' ''888888'' \<and>
   to_number (int (dec_value ''999999'')) = Finite 999999"
proof -
  have e: "extractVersion (JString ''run-999999-888888'') =
     Some \<lparr>version = ''run-999999-888888'', run = Finite 999999, attempt = Finite 888888\<rparr>"
    by (simp add: extractVersion_def re_exec_def is_digit_def parseInt_def dec_value_def
        digit_val_def to_number_def round_to_double_def)
  have p: "version_pattern ''run-999999-888888'' ''999999'' ''888888''"
    by (simp add: version_pattern_def is_digit_def)
  from extractVersion_components[OF e p] e p show ?thesis by simp
qed

text \<open>
  C9 as stated fails: the identifier is the input string, and the pattern admits leading
  zeros, so the identifier need not be the canonical text of the parsed ordinals.
\<close>

theorem extractVersion_noncanonical_counterexample:
  "extractVersion (JString ''run-007-01'') =
     Some \<lparr>version = ''run-007-01'', run = Finite 7, attempt = Finite 1\<rparr> \<and>
   canonical_text 7 1 = ''run-7-1'' \<and> ''run-007-01'' \<noteq> ''run-7-1''"
  by (simp add: extractVersion_def re_exec_def is_digit_def parseInt_def dec_value_def
      digit_val_def to_number_def round_to_double_def canonical_text_def dec_string.simps
      digit_char_def)

text \<open>
  C9, amended: the identifier of every version that \<open>extractVersion\<close> returns is the
  input string, which matches \<open>run-<digits>-<digits>\<close> as a whole, and \<open>run\<close> and
  \<open>attempt\<close> are the number values of the two digit groups; the identifier is the
  canonical text \<open>run-<run>-<attempt>\<close> when neither group has a leading zero and both
  values are below \<open>2 ^ 53\<close>.
\<close>

theorem extractVersion_identifier:
  assumes "extractVersion x = Some v"
  shows "x = JString (version v) \<and>
     (\<exists>g1 g2. version_pattern (version v) g1 g2 \<and>
        run v = to_number (int (dec_value g1)) \<and> attempt v = to_number (int (dec_value g2)) \<and>
        (no_leading_zero g1 \<and> no_leading_zero g2 \<and> dec_value g1 < 2 ^ 53 \<and> dec_value g2 < 2 ^ 53 \<longrightarrow>
           run v = Finite (int (dec_value g1)) \<and> attempt v = Finite (int (dec_value g2)) \<and>
           version v = canonical_text (dec_value g1) (dec_value g2)))"
proof -
  from assms obtain s g1 g2 where x: "x = JString s" and p: "version_pattern s g1 g2"
    and v: "v = \<lparr>version = s, run = to_number (int (dec_value g1)),
               attempt = to_number (int (dec_value g2))\<rparr>"
    unfolding extractVersion_Some_iff by blast
  have ex: "n < 2 ^ 53 \<Longrightarrow> to_number (int n) = Finite (int n)" for n :: nat
    using to_number_exact[of "int n"] by simp
  from p have s: "s = ''run-'' @ g1 @ ''-'' @ g2" and d: "list_all is_digit g1" "g1 \<noteq> []"
    "list_all is_digit g2" "g2 \<noteq> []" by (simp_all add: version_pattern_def)
  have canon: "s = canonical_text (dec_value g1) (dec_value g2)"
    if "no_leading_zero g1" "no_leading_zero g2"
    using that d by (simp add: canonical_text_def dec_string_dec_value s)
  from x v have "x = JString (version v)" by simp
  moreover have "version_pattern (version v) g1 g2 \<and>
        run v = to_number (int (dec_value g1)) \<and> attempt v = to_number (int (dec_value g2)) \<and>
        (no_leading_zero g1 \<and> no_leading_zero g2 \<and> dec_value g1 < 2 ^ 53 \<and> dec_value g2 < 2 ^ 53 \<longrightarrow>
           run v = Finite (int (dec_value g1)) \<and> attempt v = Finite (int (dec_value g2)) \<and>
           version v = canonical_text (dec_value g1) (dec_value g2))"
    using p canon ex by (simp add: v)
  ultimately show ?thesis by blast
qed

theorem extractVersion_identifier_witness:
  "extractVersion (JString ''run-123-4'') =
     Some \<lparr>version = ''run-123-4'', run = Finite 123, attempt = Finite 4\<rparr> \<and>
   (\<exists>g1 g2. version_pattern ''run-123-4'' g1 g2 \<and> Finite 123 = to_number (int (dec_value g1)))"
proof -
  have e: "extractVersion (JString ''run-123-4'') =
     Some \<lparr>version = ''run-123-4'', run = Finite 123, attempt = Finite 4\<rparr>"
    by (simp add: extractVersion_def re_exec_def is_digit_def parseInt_def dec_value_def
        digit_val_def to_number_def round_to_double_def)
  from extractVersion_identifier[OF e] e show ?thesis by auto
qed

subsection \<open>Comparison\<close>

text \<open>
  C7 as stated fails on a version with an infinite ordinal, which \<open>extractVersion\<close>
  returns for a digit group of 309 digits: the difference of the two infinite \<open>run\<close>
  values is NaN, which is neither negative, zero nor positive.
\<close>

theorem compareVersions_infinite_counterexample:
  "extractVersion (JString (''run-2'' @ replicate 308 CHR ''0'' @ ''-1'')) =
     Some \<lparr>version = ''run-2'' @ replicate 308 CHR ''0'' @ ''-1'', run = PosInfinity, attempt = Finite 1\<rparr> \<and>
   compareVersions
     \<lparr>version = ''run-2'' @ replicate 308 CHR ''0'' @ ''-1'', run = PosInfinity, attempt = Finite 1\<rparr>
     \<lparr>version = ''run-2'' @ replicate 308 CHR ''0'' @ ''-1'', run = PosInfinity, attempt = Finite 1\<rparr> = NaN \<and>
   \<not> is_zero NaN"
proof -
  define g where "g = CHR ''2'' # replicate 308 CHR ''0''"
  have d2: "digit_val CHR ''2'' = 2" by (simp add: digit_val_def)
  have dg: "dec_value g = 2 * 10 ^ 308"
    unfolding dec_value_def g_def by (simp only: foldl_Cons foldl_dec_zeros d2 mult_0_right add_0)
  have "(2::nat) ^ 1024 \<le> 2 * 10 ^ 308" by simp
  then have "2 ^ 1024 \<le> round_to_double (dec_value g)"
    unfolding dg by (rule round_to_double_overflow)
  then have r: "to_number (int (dec_value g)) = PosInfinity"
    by (simp add: to_number_def Let_def)
  have a: "to_number (int (dec_value ''1'')) = Finite 1"
    using to_number_exact[of 1] by (simp add: dec_value_def digit_val_def)
  have p: "version_pattern (''run-'' @ g @ ''-1'') g ''1''"
    by (simp add: version_pattern_def g_def is_digit_def list_all_iff)
  have "extractVersion (JString (''run-'' @ g @ ''-1'')) =
     Some \<lparr>version = ''run-'' @ g @ ''-1'', run = PosInfinity, attempt = Finite 1\<rparr>"
    unfolding extractVersion_Some_iff
    by (rule exI[of _ "''run-'' @ g @ ''-1''"], rule exI[of _ g], rule exI[of _ "''1''"])
       (use p r a in simp)
  then show ?thesis by (simp add: g_def compareVersions_def)
qed

text \<open>
  C7, amended: on versions whose \<open>run\<close> and \<open>attempt\<close> are finite numbers,
  \<open>compareVersions\<close> is a three-way comparator of a total order with \<open>run\<close> as the
  primary key and \<open>attempt\<close> as the tie-break: its result is negative, zero or positive
  as the first version is below, equivalent to or above the second; a version compares
  equal to itself; swapping the arguments swaps the sign; the order is transitive; and
  versions with the same \<open>run\<close> and \<open>attempt\<close> compare equal whatever their identifiers.
\<close>

theorem compareVersions_total_order:
  assumes "finite_version a" "finite_version b" "finite_version c"
  shows "(is_negative (compareVersions a b) \<or> is_zero (compareVersions a b) \<or>
          is_positive (compareVersions a b)) \<and>
         is_negative (compareVersions a b) = version_less a b \<and>
         is_zero (compareVersions a b) = version_equiv a b \<and>
         is_positive (compareVersions a b) = version_less b a \<and>
         is_zero (compareVersions a a) \<and>
         is_negative (compareVersions a b) = is_positive (compareVersions b a) \<and>
         is_zero (compareVersions a b) = is_zero (compareVersions b a) \<and>
         (is_negative (compareVersions a b) \<and> is_negative (compareVersions b c) \<longrightarrow>
            is_negative (compareVersions a c)) \<and>
         (\<not> is_positive (compareVersions a b) \<and> \<not> is_positive (compareVersions b c) \<longrightarrow>
            \<not> is_positive (compareVersions a c)) \<and>
         (is_zero (compareVersions a b) \<and> is_zero (compareVersions b c) \<longrightarrow>
            is_zero (compareVersions a c)) \<and>
         (run a = run b \<and> attempt a = attempt b \<longrightarrow> is_zero (compareVersions a b))"
  unfolding compareVersions_finite[OF assms(1) assms(2)] compareVersions_finite[OF assms(2) assms(3)]
    compareVersions_finite[OF assms(1) assms(3)] compareVersions_finite[OF assms(2) assms(1)]
    compareVersions_finite[OF assms(1) assms(1)]
  by (auto simp: version_less_def version_equiv_def)

theorem compareVersions_total_order_witness:
  "finite_version \<lparr>version = ''run-122-1'', run = Finite 122, attempt = Finite 1\<rparr> \<and>
   finite_version \<lparr>version = ''run-123-1'', run = Finite 123, attempt = Finite 1\<rparr> \<and>
   finite_version \<lparr>version = ''run-123-2'', run = Finite 123, attempt = Finite 2\<rparr> \<and>
   is_negative (compareVersions \<lparr>version = ''run-122-1'', run = Finite 122, attempt = Finite 1\<rparr>
                                \<lparr>version = ''run-123-1'', run = Finite 123, attempt = Finite 1\<rparr>) \<and>
   is_positive (compareVersions \<lparr>version = ''run-123-1'', run = Finite 123, attempt = Finite 1\<rparr>
                                \<lparr>version = ''run-122-1'', run = Finite 122, attempt = Finite 1\<rparr>) \<and>
   is_zero (compareVersions \<lparr>version = ''run-122-1'', run = Finite 122, attempt = Finite 1\<rparr>
                            \<lparr>version = ''run-122-1'', run = Finite 122, attempt = Finite 1\<rparr>)"
proof -
  let ?a = "\<lparr>version = ''run-122-1'', run = Finite 122, attempt = Finite 1\<rparr>"
  let ?b = "\<lparr>version = ''run-123-1'', run = Finite 123, attempt = Finite 1\<rparr>"
  let ?c = "\<lparr>version = ''run-123-2'', run = Finite 123, attempt = Finite 2\<rparr>"
  have fa: "finite_version ?a" and fb: "finite_version ?b" and fc: "finite_version ?c"
    by (simp_all add: finite_version_def)
  have l: "version_less ?a ?b" by (simp add: version_less_def)
  from compareVersions_total_order[OF fa fb fc]
  have n: "is_negative (compareVersions ?a ?b) = version_less ?a ?b"
    and z: "is_zero (compareVersions ?a ?a)"
    and p: "is_negative (compareVersions ?a ?b) = is_positive (compareVersions ?b ?a)"
    by blast+
  from n l have "is_negative (compareVersions ?a ?b)" by blast
  moreover from this p have "is_positive (compareVersions ?b ?a)" by blast
  ultimately show ?thesis using z fa fb fc by blast
qed

section \<open>Properties of the scheduler\<close>

subsection \<open>The steps of the scheduler\<close>

lemma of_list_inject [simp]: "of_list xs = of_list ys \<longleftrightarrow> xs = ys"
proof (induction xs arbitrary: ys)
  case Nil
  show ?case by (cases ys) simp_all
next
  case (Cons x xs)
  show ?case by (cases ys) (simp_all add: Cons.IH)
qed

lemma of_list_Done [simp]: "of_list xs = Done \<longleftrightarrow> xs = []"
  by (cases xs) simp_all

lemma step_cases [consumes 1, case_names prime primed exhausted fulfilled returned drain_done drain_value]:
  assumes "step s s'"
  obtains
    (prime) task g where "phase s = Priming" "int (length (tasks s)) < max_tasks s"
      "source_next (source s) = (task, g)"
      "s' = s\<lparr>source := g, tasks := tasks s @ [wrap task]\<rparr>"
  | (primed) "phase s = Priming" "\<not> int (length (tasks s)) < max_tasks s"
      "s' = s\<lparr>phase := Racing\<rparr>"
  | (exhausted) i where "phase s = Racing" "i < length (tasks s)" "tasks s ! i = Exhausted"
      "s' = s\<lparr>tasks := (tasks s)[i := Null], phase := Draining\<rparr>"
  | (fulfilled) i v task g where "phase s = Racing" "i < length (tasks s)"
      "tasks s ! i = Task (Fulfils v)" "source_next (source s) = (task, g)"
      "s' = s\<lparr>source := g, tasks := (tasks s)[i := wrap task], yielded := yielded s @ [v]\<rparr>"
  | (returned) "phase s = Draining" "live (tasks s) = []" "s' = s\<lparr>phase := Returned\<rparr>"
  | (drain_done) i where "phase s = Draining" "live (tasks s) \<noteq> []" "i < length (tasks s)"
      "tasks s ! i = Exhausted" "s' = s\<lparr>tasks := (tasks s)[i := Null]\<rparr>"
  | (drain_value) i v where "phase s = Draining" "live (tasks s) \<noteq> []" "i < length (tasks s)"
      "tasks s ! i = Task (Fulfils v)"
      "s' = s\<lparr>tasks := (tasks s)[i := Null], yielded := yielded s @ [v]\<rparr>"
proof -
  from assms obtain i where st: "sched_step i s = Some s'" by (auto elim: step.cases)
  show thesis
  proof (cases "phase s")
    case Priming
    obtain task g where sn: "source_next (source s) = (task, g)" by (cases "source_next (source s)")
    show thesis
    proof (cases "int (length (tasks s)) < max_tasks s")
      case True
      with st Priming sn have "s' = s\<lparr>source := g, tasks := tasks s @ [wrap task]\<rparr>"
        by (simp add: sched_step_def step_priming_def pull_def)
      with Priming True sn show thesis by (rule prime)
    next
      case False
      with st Priming have "s' = s\<lparr>phase := Racing\<rparr>"
        by (simp add: sched_step_def step_priming_def)
      with Priming False show thesis by (rule primed)
    qed
  next
    case Racing
    with st have sr: "step_racing i s = Some s'" by (simp add: sched_step_def)
    then have il: "i < length (tasks s)"
      by (auto simp: step_racing_def race_def split: if_splits option.splits)
    obtain task g where sn: "source_next (source s) = (task, g)" by (cases "source_next (source s)")
    from sr il consider "tasks s ! i = Exhausted" | v where "tasks s ! i = Task (Fulfils v)"
      by (cases "tasks s ! i" rule: settles.cases) (auto simp: step_racing_def race_def)
    then show thesis
    proof cases
      case 1
      with sr il have "s' = s\<lparr>tasks := (tasks s)[i := Null], phase := Draining\<rparr>"
        by (simp add: step_racing_def race_def)
      with Racing il 1 show thesis by (rule exhausted)
    next
      case 2
      with sr il sn have "s' = s\<lparr>source := g, tasks := (tasks s)[i := wrap task], yielded := yielded s @ [v]\<rparr>"
        by (simp add: step_racing_def race_def pull_def)
      with Racing il 2 sn show thesis by (rule fulfilled)
    qed
  next
    case Draining
    with st have sd: "step_draining i s = Some s'" by (simp add: sched_step_def)
    show thesis
    proof (cases "live (tasks s) = []")
      case True
      with sd have "s' = s\<lparr>phase := Returned\<rparr>" by (simp add: step_draining_def live_def)
      with Draining True show thesis by (rule returned)
    next
      case False
      with sd have il: "i < length (tasks s)"
        by (auto simp: step_draining_def live_def race_def split: if_splits option.splits)
      from sd il False consider "tasks s ! i = Exhausted" | v where "tasks s ! i = Task (Fulfils v)"
        by (cases "tasks s ! i" rule: settles.cases) (auto simp: step_draining_def live_def race_def)
      then show thesis
      proof cases
        case 1
        with sd il False have "s' = s\<lparr>tasks := (tasks s)[i := Null]\<rparr>"
          by (simp add: step_draining_def live_def race_def)
        with Draining False il 1 show thesis by (rule drain_done)
      next
        case 2
        with sd il False have "s' = s\<lparr>tasks := (tasks s)[i := Null], yielded := yielded s @ [v]\<rparr>"
          by (simp add: step_draining_def live_def race_def)
        with Draining False il 2 show thesis by (rule drain_value)
      qed
    qed
  next
    case Returned
    with st show thesis by (simp add: sched_step_def)
  qed
qed

lemma task_ops_snoc [simp]: "task_ops (ts @ [w]) = task_ops ts @ slot_ops w"
  by (simp add: task_ops_def)

lemma task_ops_update:
  assumes "i < length ts"
  shows "mset (task_ops (ts[i := w])) + mset (slot_ops (ts ! i)) = mset (task_ops ts) + mset (slot_ops w)"
proof -
  from assms have a: "ts = take i ts @ ts ! i # drop (Suc i) ts" by (rule id_take_nth_drop)
  from assms have b: "ts[i := w] = take i ts @ w # drop (Suc i) ts" by (rule upd_conv_take_nth_drop)
  have "mset (task_ops (take i ts @ w # drop (Suc i) ts)) + mset (slot_ops (ts ! i)) =
        mset (task_ops (take i ts @ ts ! i # drop (Suc i) ts)) + mset (slot_ops w)"
    by (simp add: task_ops_def)
  with a b show ?thesis by simp
qed

lemma task_ops_update_len:
  assumes "i < length ts"
  shows "length (task_ops (ts[i := w])) + length (slot_ops (ts ! i)) = length (task_ops ts) + length (slot_ops w)"
proof -
  have "size (mset (task_ops (ts[i := w])) + mset (slot_ops (ts ! i))) =
        size (mset (task_ops ts) + mset (slot_ops w))"
    by (simp only: task_ops_update[OF assms])
  then show ?thesis by simp
qed

lemma live_snoc [simp]: "live (ts @ [w]) = live ts @ (if w = Null then [] else [w])"
  by (simp add: live_def)

lemma live_update_len:
  assumes "i < length ts"
  shows "length (live (ts[i := w])) + (if ts ! i = Null then 0 else 1) =
         length (live ts) + (if w = Null then 0 else 1)"
proof -
  from assms have a: "ts = take i ts @ ts ! i # drop (Suc i) ts" by (rule id_take_nth_drop)
  from assms have b: "ts[i := w] = take i ts @ w # drop (Suc i) ts" by (rule upd_conv_take_nth_drop)
  have "length (live (take i ts @ w # drop (Suc i) ts)) + (if ts ! i = Null then 0 else 1) =
        length (live (take i ts @ ts ! i # drop (Suc i) ts)) + (if w = Null then 0 else 1)"
    by (simp add: live_def)
  with a b show ?thesis by simp
qed

lemma live_empty_iff: "live ts = [] \<longleftrightarrow> (\<forall>t\<in>set ts. t = Null)"
  by (auto simp: live_def filter_empty_conv)

lemma task_ops_subset: "p \<in> set (task_ops ts) \<longleftrightarrow> Task p \<in> set ts"
proof (induction ts)
  case Nil
  show ?case by (simp add: task_ops_def)
next
  case (Cons t ts)
  then show ?case by (cases t) (auto simp: task_ops_def)
qed

lemma task_ops_all_null: "live ts = [] \<Longrightarrow> task_ops ts = []"
proof (induction ts)
  case Nil
  show ?case by (simp add: task_ops_def)
next
  case (Cons t ts)
  then show ?case by (cases t) (auto simp: task_ops_def live_def split: if_splits)
qed

lemma wrap_not_Null [simp]: "wrap task \<noteq> Null"
  by (cases task) (simp_all add: wrap_def)

lemma Null_not_wrap [simp]: "Null \<noteq> wrap task"
  by (cases task) (simp_all add: wrap_def)

lemma wrap_Exhausted [simp]: "wrap task = Exhausted \<longleftrightarrow> task = None"
  by (cases task) (simp_all add: wrap_def)

lemma slot_ops_wrap: "slot_ops (wrap task) = (case task of None \<Rightarrow> [] | Some p \<Rightarrow> [p])"
  by (cases task) (simp_all add: wrap_def)

lemma table_bound:
  assumes "step\<^sup>*\<^sup>* s0 s" and "int (length (tasks s0)) \<le> max_tasks s0"
  shows "int (length (tasks s)) \<le> max_tasks s \<and> max_tasks s = max_tasks s0"
  using assms
proof (induction rule: rtranclp_induct)
  case base
  then show ?case by simp
next
  case (step s s')
  then have IH: "int (length (tasks s)) \<le> max_tasks s" "max_tasks s = max_tasks s0" by simp_all
  from step.hyps(2) IH show ?case by (cases rule: step_cases) auto
qed

lemma in_flight_le: "in_flight s \<le> length (tasks s)"
  by (simp add: in_flight_def)

lemma sched_inv_init:
  "parallelGenerator mx (of_list ps) = Inr s0 \<Longrightarrow> sched_inv mx ps s0"
  by (auto simp: parallelGenerator_def sched_inv_def task_ops_def live_def split: if_splits)

lemma sched_inv_step:
  assumes "step s s'" and inv: "sched_inv mx ps s"
  shows "sched_inv mx ps s'"
proof -
  from inv obtain rest where src: "source s = of_list rest"
    and acc: "mset ps = mset (map Fulfils (yielded s)) + mset (task_ops (tasks s)) + mset rest"
    by (auto simp: sched_inv_def)
  from inv have mx: "1 \<le> mx" "max_tasks s = mx" "int (length (tasks s)) \<le> mx"
    and full: "phase s \<noteq> Priming \<Longrightarrow> int (length (tasks s)) = mx"
    and nonull: "phase s = Priming \<or> phase s = Racing \<Longrightarrow> Null \<notin> set (tasks s)"
    and exh: "Exhausted \<in> set (tasks s) \<or> phase s = Draining \<or> phase s = Returned \<Longrightarrow> source s = Done"
    by (auto simp: sched_inv_def)
  from assms(1) show ?thesis
  proof (cases rule: step_cases)
    case (prime task g)
    show ?thesis
    proof (cases rest)
      case Nil
      with prime(3) src have "task = None" "g = Done" by (simp_all add: source_next_def)
      with prime mx nonull acc Nil show ?thesis
        by (auto simp: sched_inv_def wrap_def intro!: exI[of _ "[]"])
    next
      case (Cons p qs)
      with prime(3) src have tg: "task = Some p" "g = of_list qs" by (simp_all add: source_next_def)
      from Cons src exh have "Exhausted \<notin> set (tasks s)" by auto
      with tg prime mx nonull acc Cons show ?thesis
        by (auto simp: sched_inv_def wrap_def intro!: exI[of _ qs])
    qed
  next
    case primed
    with mx nonull exh src acc show ?thesis
      by (auto simp: sched_inv_def)
  next
    case (exhausted i)
    then have "Exhausted \<in> set (tasks s)" by (metis nth_mem)
    with exh have d: "source s = Done" by simp
    from task_ops_update[OF exhausted(2), of Null] exhausted(3)
    have "mset (task_ops ((tasks s)[i := Null])) = mset (task_ops (tasks s))" by simp
    with exhausted mx full d src acc show ?thesis
      by (auto simp: sched_inv_def)
  next
    case (fulfilled i v task g)
    from task_ops_update[OF fulfilled(2), of "wrap task"] fulfilled(3)
    have upd: "mset (task_ops ((tasks s)[i := wrap task])) + {#Fulfils v#} =
               mset (task_ops (tasks s)) + mset (slot_ops (wrap task))" by simp
    from nonull fulfilled(1) have nn: "Null \<notin> set ((tasks s)[i := wrap task])"
      by (auto dest!: set_update_subset_insert[THEN subsetD])
    show ?thesis
    proof (cases rest)
      case Nil
      with fulfilled(4) src have tg: "task = None" "g = Done" by (simp_all add: source_next_def)
      from upd tg acc Nil
      have "mset ps = mset (map Fulfils (yielded s @ [v])) + mset (task_ops ((tasks s)[i := wrap task])) + mset []"
        by (simp add: slot_ops_wrap)
      with fulfilled mx full nn tg show ?thesis
        by (auto simp: sched_inv_def intro!: exI[of _ "[]"])
    next
      case (Cons p qs)
      with fulfilled(4) src have tg: "task = Some p" "g = of_list qs" by (simp_all add: source_next_def)
      from Cons src exh have ne: "Exhausted \<notin> set (tasks s)" by auto
      then have ne': "Exhausted \<notin> set ((tasks s)[i := wrap task])" using tg
        by (auto simp: wrap_def dest!: set_update_subset_insert[THEN subsetD])
      from upd tg acc Cons
      have "mset ps = mset (map Fulfils (yielded s @ [v])) + mset (task_ops ((tasks s)[i := wrap task])) + mset qs"
        by (simp add: slot_ops_wrap)
      with fulfilled mx full nn ne' tg show ?thesis
        by (auto simp: sched_inv_def intro!: exI[of _ qs])
    qed
  next
    case returned
    with mx full exh src acc show ?thesis
      by (auto simp: sched_inv_def)
  next
    case (drain_done i)
    from task_ops_update[OF drain_done(3), of Null] drain_done(4)
    have "mset (task_ops ((tasks s)[i := Null])) = mset (task_ops (tasks s))" by simp
    with drain_done mx full exh src acc show ?thesis
      by (auto simp: sched_inv_def)
  next
    case (drain_value i v)
    from task_ops_update[OF drain_value(3), of Null] drain_value(4)
    have "mset (task_ops ((tasks s)[i := Null])) + {#Fulfils v#} = mset (task_ops (tasks s))" by simp
    with acc have "mset ps = mset (map Fulfils (yielded s @ [v])) + mset (task_ops ((tasks s)[i := Null])) + mset rest"
      by (simp add: ac_simps)
    with drain_value mx full exh src show ?thesis
      by (auto simp: sched_inv_def)
  qed
qed

lemma sched_inv_reachable:
  "step\<^sup>*\<^sup>* s0 s \<Longrightarrow> sched_inv mx ps s0 \<Longrightarrow> sched_inv mx ps s"
  by (induction rule: rtranclp_induct) (auto intro: sched_inv_step)

lemma remaining_step:
  assumes "step s s'" and src: "source s = of_list rest"
  shows "\<exists>rest'. source s' = of_list rest' \<and> remaining s' rest' < remaining s rest"
  using assms(1)
proof (cases rule: step_cases)
  case (prime task g)
  show ?thesis
  proof (cases rest)
    case Nil
    with prime(3) src have "task = None" "g = Done" by (simp_all add: source_next_def)
    with prime Nil show ?thesis
      by (intro exI[of _ "[]"]) (auto simp: remaining_def wrap_def)
  next
    case (Cons p qs)
    with prime(3) src have "task = Some p" "g = of_list qs" by (simp_all add: source_next_def)
    with prime Cons show ?thesis
      by (intro exI[of _ qs]) (auto simp: remaining_def wrap_def)
  qed
next
  case primed
  with src show ?thesis by (intro exI[of _ rest]) (simp add: remaining_def)
next
  case (exhausted i)
  from task_ops_update_len[OF exhausted(2), of Null] live_update_len[OF exhausted(2), of Null] exhausted(3)
  have "length (task_ops ((tasks s)[i := Null])) = length (task_ops (tasks s))"
    "length (live ((tasks s)[i := Null])) + 1 = length (live (tasks s))" by simp_all
  with exhausted src show ?thesis by (intro exI[of _ rest]) (simp add: remaining_def)
next
  case (fulfilled i v task g)
  from task_ops_update_len[OF fulfilled(2), of "wrap task"] live_update_len[OF fulfilled(2), of "wrap task"]
    fulfilled(3)
  have l: "length (task_ops ((tasks s)[i := wrap task])) + 1 =
           length (task_ops (tasks s)) + length (slot_ops (wrap task))"
    "length (live ((tasks s)[i := wrap task])) = length (live (tasks s))" by simp_all
  show ?thesis
  proof (cases rest)
    case Nil
    with fulfilled(4) src have tg: "task = None" "g = Done" by (simp_all add: source_next_def)
    with l have "length (task_ops ((tasks s)[i := wrap task])) + 1 = length (task_ops (tasks s))"
      by (simp add: slot_ops_wrap)
    with fulfilled Nil tg l(2) show ?thesis
      by (intro exI[of _ "[]"]) (simp add: remaining_def)
  next
    case (Cons p qs)
    with fulfilled(4) src have tg: "task = Some p" "g = of_list qs" by (simp_all add: source_next_def)
    with l have "length (task_ops ((tasks s)[i := wrap task])) = length (task_ops (tasks s))"
      by (simp add: slot_ops_wrap)
    with fulfilled Cons tg l(2) show ?thesis
      by (intro exI[of _ qs]) (simp add: remaining_def)
  qed
next
  case returned
  with src show ?thesis by (intro exI[of _ rest]) (simp add: remaining_def)
next
  case (drain_done i)
  from task_ops_update_len[OF drain_done(3), of Null] live_update_len[OF drain_done(3), of Null] drain_done(4)
  have "length (task_ops ((tasks s)[i := Null])) = length (task_ops (tasks s))"
    "length (live ((tasks s)[i := Null])) + 1 = length (live (tasks s))" by simp_all
  with drain_done src show ?thesis by (intro exI[of _ rest]) (simp add: remaining_def)
next
  case (drain_value i v)
  from task_ops_update_len[OF drain_value(3), of Null] live_update_len[OF drain_value(3), of Null] drain_value(4)
  have "length (task_ops ((tasks s)[i := Null])) + 1 = length (task_ops (tasks s))"
    "length (live ((tasks s)[i := Null])) + 1 = length (live (tasks s))" by simp_all
  with drain_value src show ?thesis by (intro exI[of _ rest]) (simp add: remaining_def)
qed

lemma steps_bounded:
  assumes "(step ^^ k) s0 s" and "source s0 = of_list ps"
  shows "\<exists>rest. source s = of_list rest \<and> k + remaining s rest \<le> remaining s0 ps"
  using assms
proof (induction k arbitrary: s)
  case 0
  then show ?case by auto
next
  case (Suc k)
  from Suc.prems(1) obtain t where kt: "(step ^^ k) s0 t" and st: "step t s" by auto
  from Suc.IH[OF kt Suc.prems(2)] obtain rest where
    r: "source t = of_list rest" "k + remaining t rest \<le> remaining s0 ps" by blast
  from remaining_step[OF st r(1)] obtain rest' where
    "source s = of_list rest'" "remaining s rest' < remaining t rest" by blast
  with r(2) show ?case by (intro exI[of _ rest']) simp
qed

lemma held_operation_from_source:
  assumes "sched_inv mx ps s" and "Task p \<in> set (tasks s)"
  shows "p \<in> set ps"
proof -
  from assms(1) obtain rest where
    acc: "mset ps = mset (map Fulfils (yielded s)) + mset (task_ops (tasks s)) + mset rest"
    unfolding sched_inv_def by blast
  from assms(2) have "p \<in># mset (task_ops (tasks s))" by (simp add: task_ops_subset)
  then have "p \<in># mset ps" unfolding acc by simp
  then show ?thesis by simp
qed

lemma sched_progress:
  assumes inv: "sched_inv mx ps s" and ok: "list_all fulfils ps" and nr: "phase s \<noteq> Returned"
  shows "\<exists>i \<le> length (tasks s). \<exists>s'. sched_step i s = Some s'"
proof (cases "phase s")
  case Priming
  then show ?thesis by (intro exI[of _ 0]) (simp add: sched_step_def)
next
  case Racing
  with inv have len: "int (length (tasks s)) = mx" "1 \<le> mx" and nn: "Null \<notin> set (tasks s)"
    by (auto simp: sched_inv_def)
  then have l0: "0 < length (tasks s)" by auto
  then have mem: "tasks s ! 0 \<in> set (tasks s)" by (rule nth_mem)
  show ?thesis
  proof (cases "tasks s ! 0")
    case (Task p)
    with mem inv have "p \<in> set ps" by (auto intro: held_operation_from_source)
    with ok have "fulfils p" by (simp add: list_all_iff)
    then obtain v where "p = Fulfils v" by (cases p) auto
    with Task Racing l0 show ?thesis
      by (intro exI[of _ 0]) (simp add: sched_step_def step_racing_def race_def)
  next
    case Exhausted
    with Racing l0 show ?thesis
      by (intro exI[of _ 0]) (simp add: sched_step_def step_racing_def race_def)
  next
    case Null
    with mem nn show ?thesis by simp
  qed
next
  case Draining
  show ?thesis
  proof (cases "live (tasks s) = []")
    case True
    with Draining show ?thesis
      by (intro exI[of _ 0]) (simp add: sched_step_def step_draining_def live_def)
  next
    case False
    then obtain t where t: "t \<in> set (tasks s)" "t \<noteq> Null" by (auto simp: live_empty_iff)
    then obtain i where i: "i < length (tasks s)" "tasks s ! i = t" by (auto simp: in_set_conv_nth)
    have "\<exists>r. settles t = Some r"
    proof (cases t)
      case (Task p)
      with t inv have "p \<in> set ps" by (auto intro: held_operation_from_source)
      with ok have "fulfils p" by (simp add: list_all_iff)
      then obtain v where "p = Fulfils v" by (cases p) auto
      with Task show ?thesis by simp
    next
      case Exhausted
      then show ?thesis by simp
    next
      case Null
      with t show ?thesis by simp
    qed
    then obtain r where "settles t = Some r" by blast
    with Draining False i show ?thesis
      by (intro exI[of _ i]) (simp add: sched_step_def step_draining_def live_def race_def)
  qed
next
  case Returned
  with nr show ?thesis by simp
qed

lemma returned_all_yielded:
  assumes "sched_inv mx ps s" and "phase s = Returned"
  shows "mset (map Fulfils (yielded s)) = mset ps"
proof -
  from assms have "source s = Done" "live (tasks s) = []" by (auto simp: sched_inv_def)
  moreover from assms obtain rest where "source s = of_list rest"
    "mset ps = mset (map Fulfils (yielded s)) + mset (task_ops (tasks s)) + mset rest"
    by (auto simp: sched_inv_def)
  ultimately show ?thesis by (simp add: task_ops_all_null)
qed

lemma returned_needs_fulfilment:
  assumes "sched_inv mx ps s" and "phase s = Returned"
  shows "list_all fulfils ps"
proof -
  from returned_all_yielded[OF assms] have "set ps = set (map Fulfils (yielded s))"
    by (metis set_mset_mset)
  then show ?thesis by (auto simp: list_all_iff)
qed

lemma auto_step_progress:
  assumes inv: "sched_inv mx ps s" and ok: "list_all fulfils ps" and nr: "phase s \<noteq> Returned"
  shows "\<exists>s'. auto_step s = Some s' \<and> step s s'"
proof -
  from sched_progress[OF assms] obtain i s'' where
    i: "i \<le> length (tasks s)" "sched_step i s = Some s''" by blast
  then have "i < Suc (length (tasks s))" "sched_step i s \<noteq> None" by simp_all
  then have "i \<in> set [0..<Suc (length (tasks s))] \<and> sched_step i s \<noteq> None"
    by (simp only: set_upt atLeastLessThan_iff) simp
  then have "i \<in> set (filter (\<lambda>i. sched_step i s \<noteq> None) [0..<Suc (length (tasks s))])"
    unfolding set_filter by blast
  then have "filter (\<lambda>i. sched_step i s \<noteq> None) [0..<Suc (length (tasks s))] \<noteq> []"
    by (metis empty_iff list.set(1))
  then obtain j js where f: "filter (\<lambda>i. sched_step i s \<noteq> None) [0..<Suc (length (tasks s))] = j # js"
    by (meson list.exhaust)
  have "j \<in> set (filter (\<lambda>i. sched_step i s \<noteq> None) [0..<Suc (length (tasks s))])"
    unfolding f by simp
  then have "sched_step j s \<noteq> None" unfolding set_filter by blast
  then obtain s' where s': "sched_step j s = Some s'" by blast
  have "auto_step s = Some s'" unfolding auto_step_def f using s' by simp
  moreover from s' have "step s s'" by (rule step.intros)
  ultimately show ?thesis by blast
qed

lemma auto_step_is_step:
  assumes "auto_step s = Some s'"
  shows "step s s'"
proof -
  define F where "F = filter (\<lambda>i. sched_step i s \<noteq> None) [0..<Suc (length (tasks s))]"
  from assms have "(case F of [] \<Rightarrow> None | i # _ \<Rightarrow> sched_step i s) = Some s'"
    by (simp only: auto_step_def F_def)
  then obtain i where "sched_step i s = Some s'" by (cases F) simp_all
  then show ?thesis by (rule step.intros)
qed

lemma run_to_end_total:
  assumes "sched_inv mx ps s" and "list_all fulfils ps" and "source s = of_list rest"
  shows "\<exists>ys. run_to_end s = Some ys \<and> mset (map Fulfils ys) = mset ps"
  using assms
proof (induction "remaining s rest" arbitrary: s rest rule: less_induct)
  case less
  show ?case
  proof (cases "phase s = Returned")
    case True
    then have "run_to_end s = Some (yielded s)" by (subst run_to_end.simps) simp
    with returned_all_yielded[OF less.prems(1) True] show ?thesis by simp
  next
    case False
    from auto_step_progress[OF less.prems(1,2) False] obtain s' where
      a: "auto_step s = Some s'" and st: "step s s'" by blast
    from remaining_step[OF st less.prems(3)] obtain rest' where
      r: "source s' = of_list rest'" "remaining s' rest' < remaining s rest" by blast
    from sched_inv_step[OF st less.prems(1)] have inv': "sched_inv mx ps s'" .
    from less.hyps[OF r(2) inv' less.prems(2) r(1)] obtain ys where
      "run_to_end s' = Some ys" "mset (map Fulfils ys) = mset ps" by blast
    moreover have "run_to_end s = run_to_end s'" using False a by (subst run_to_end.simps) simp
    ultimately show ?thesis by simp
  qed
qed

lemma run_to_end_reaches:
  "run_to_end s = Some ys \<Longrightarrow> \<exists>s'. step\<^sup>*\<^sup>* s s' \<and> phase s' = Returned \<and> yielded s' = ys"
proof (induct s ys rule: run_to_end.raw_induct[rotated 1, consumes 1, case_names unfold])
  case (unfold run s ys)
  show ?case
  proof (cases "phase s = Returned")
    case True
    with unfold(2) show ?thesis by (intro exI[of _ s]) simp
  next
    case False
    with unfold(2) have "(case auto_step s of None \<Rightarrow> None | Some s' \<Rightarrow> run s') = Some ys"
      by simp
    then obtain t where a: "auto_step s = Some t" and r: "run t = Some ys"
      by (cases "auto_step s") simp_all
    from unfold(1)[OF r] obtain s' where s': "step\<^sup>*\<^sup>* t s'" "phase s' = Returned" "yielded s' = ys"
      by blast
    from auto_step_is_step[OF a] s'(1) have "step\<^sup>*\<^sup>* s s'"
      by (rule converse_rtranclp_into_rtranclp)
    with s'(2,3) show ?thesis by blast
  qed
qed

lemma run_to_end_None:
  assumes "parallelGenerator mx (of_list ps) = Inr s0" and "\<not> list_all fulfils ps"
  shows "run_to_end s0 = None"
proof (cases "run_to_end s0")
  case None
  then show ?thesis .
next
  case (Some ys)
  from run_to_end_reaches[OF this] obtain s where s: "step\<^sup>*\<^sup>* s0 s" "phase s = Returned" by blast
  from sched_inv_reachable[OF s(1) sched_inv_init[OF assms(1)]] have "sched_inv mx ps s" .
  from returned_needs_fulfilment[OF this s(2)] assms(2) show ?thesis by simp
qed

lemma run_choices_steps: "run_choices js s = Some s' \<Longrightarrow> step\<^sup>*\<^sup>* s s'"
proof (induction js arbitrary: s)
  case Nil
  then show ?case by simp
next
  case (Cons i js)
  then obtain t where t: "sched_step i s = Some t" "run_choices js t = Some s'"
    by (auto split: option.splits)
  from t(1) have "step s t" by (rule step.intros)
  with Cons.IH[OF t(2)] show ?case by (rule converse_rtranclp_into_rtranclp[rotated])
qed

lemmas sched_eval = parallelGenerator_def sched_step_def step_priming_def step_racing_def
  step_draining_def pull_def source_next_def wrap_def race_def auto_step_def

subsection \<open>Completion, the bound on operations in flight, and rejected operations\<close>

text \<open>
  C2: for \<open>max \<ge> 1\<close> and a finite source of operations that all fulfil, the scheduler
  terminates and yields the result of each operation exactly once.  Whatever slot wins
  each race: no execution gets stuck before the generator returns, no execution has more
  than \<open>length ps + 2 * max + 3\<close> steps, and when the generator has returned the yielded
  values are, as a multiset, the results of the operations (so there are exactly
  \<open>length ps\<close> of them); and the consumer that drains the generator is returned to.
  A source shorter than \<open>max\<close> is a case like any other.
\<close>

theorem parallelGenerator_completes:
  assumes "1 \<le> mx" and "list_all fulfils ps" and "parallelGenerator mx (of_list ps) = Inr s0"
  shows "(\<forall>s. step\<^sup>*\<^sup>* s0 s \<longrightarrow> phase s = Returned \<or> (\<exists>s'. step s s')) \<and>
         (\<forall>k s. (step ^^ k) s0 s \<longrightarrow> k \<le> length ps + 2 * nat mx + 3) \<and>
         (\<forall>s. step\<^sup>*\<^sup>* s0 s \<and> phase s = Returned \<longrightarrow>
              mset (map Fulfils (yielded s)) = mset ps \<and> length (yielded s) = length ps) \<and>
         (\<exists>ys. run_to_end s0 = Some ys \<and> mset (map Fulfils ys) = mset ps)"
proof -
  note inv0 = sched_inv_init[OF assms(3)]
  from assms(3) have s0: "source s0 = of_list ps" "tasks s0 = []" "phase s0 = Priming" "max_tasks s0 = mx"
    by (auto simp: parallelGenerator_def split: if_splits)
  have a: "phase s = Returned \<or> (\<exists>s'. step s s')" if "step\<^sup>*\<^sup>* s0 s" for s
  proof (cases "phase s = Returned")
    case True
    then show ?thesis by simp
  next
    case False
    from auto_step_progress[OF sched_inv_reachable[OF that inv0] assms(2) False]
    show ?thesis by blast
  qed
  have b: "k \<le> length ps + 2 * nat mx + 3" if "(step ^^ k) s0 s" for k s
  proof -
    from steps_bounded[OF that s0(1)] have "k \<le> remaining s0 ps" by auto
    then show ?thesis by (simp add: remaining_def s0 task_ops_def live_def)
  qed
  have c: "mset (map Fulfils (yielded s)) = mset ps \<and> length (yielded s) = length ps"
    if "step\<^sup>*\<^sup>* s0 s" "phase s = Returned" for s
  proof -
    from returned_all_yielded[OF sched_inv_reachable[OF that(1) inv0] that(2)]
    have m: "mset (map Fulfils (yielded s)) = mset ps" .
    from mset_eq_length[OF m] have "length (yielded s) = length ps" by simp
    with m show ?thesis by simp
  qed
  note d = run_to_end_total[OF inv0 assms(2) s0(1)]
  show ?thesis
  proof (intro conjI allI impI)
    fix s assume "step\<^sup>*\<^sup>* s0 s"
    then show "phase s = Returned \<or> (\<exists>s'. step s s')" by (rule a)
  next
    fix k s assume "(step ^^ k) s0 s"
    then show "k \<le> length ps + 2 * nat mx + 3" by (rule b)
  next
    fix s assume "step\<^sup>*\<^sup>* s0 s \<and> phase s = Returned"
    then show "mset (map Fulfils (yielded s)) = mset ps" using c by blast
  next
    fix s assume "step\<^sup>*\<^sup>* s0 s \<and> phase s = Returned"
    then show "length (yielded s) = length ps" using c by blast
  next
    from d show "\<exists>ys. run_to_end s0 = Some ys \<and> mset (map Fulfils ys) = mset ps" .
  qed
qed

theorem parallelGenerator_completes_witness:
  "(1::int) \<le> 5 \<and>
   list_all fulfils [Fulfils (10::nat), Fulfils 20 :: (nat, string) operation] \<and>
   parallelGenerator 5 (of_list [Fulfils (10::nat), Fulfils 20 :: (nat, string) operation]) =
     Inr \<lparr>max_tasks = 5, source = of_list [Fulfils 10, Fulfils 20], tasks = [],
          phase = Priming, yielded = []\<rparr> \<and>
   run_choices [0, 0, 0, 0, 0, 0, 1, 2, 0, 1, 3, 4, 0]
     \<lparr>max_tasks = 5, source = of_list [Fulfils (10::nat), Fulfils 20 :: (nat, string) operation],
      tasks = [], phase = Priming, yielded = []\<rparr> =
     Some \<lparr>max_tasks = 5, source = Done, tasks = [Null, Null, Null, Null, Null],
           phase = Returned, yielded = [20, 10]\<rparr> \<and>
   mset (map Fulfils [20, 10]) = mset [Fulfils (10::nat), Fulfils 20 :: (nat, string) operation] \<and>
   length [20, 10 :: nat] = length [Fulfils (10::nat), Fulfils 20 :: (nat, string) operation]"
proof -
  let ?ps = "[Fulfils (10::nat), Fulfils 20 :: (nat, string) operation]"
  let ?init = "\<lparr>max_tasks = 5, source = of_list ?ps, tasks = [], phase = Priming, yielded = []\<rparr>"
  let ?final = "\<lparr>max_tasks = 5, source = Done, tasks = [Null, Null, Null, Null, Null],
           phase = Returned, yielded = [20, 10]\<rparr> :: (nat, string) scheduler"
  have h1: "(1::int) \<le> 5" by simp
  have h2: "list_all fulfils ?ps" by simp
  have h3: "parallelGenerator 5 (of_list ?ps) = Inr ?init" by (simp add: parallelGenerator_def)
  have r: "run_choices [0, 0, 0, 0, 0, 0, 1, 2, 0, 1, 3, 4, 0] ?init = Some ?final"
    by (simp add: sched_eval)
  then have reach: "step\<^sup>*\<^sup>* ?init ?final" by (rule run_choices_steps)
  from parallelGenerator_completes[OF h1 h2 h3]
  have "\<forall>s. step\<^sup>*\<^sup>* ?init s \<and> phase s = Returned \<longrightarrow>
          mset (map Fulfils (yielded s)) = mset ?ps \<and> length (yielded s) = length ?ps"
    by (elim conjE)
  from this[THEN spec, of ?final] reach
  have "mset (map Fulfils (yielded ?final)) = mset ?ps \<and> length (yielded ?final) = length ?ps"
    by simp
  then have "mset (map Fulfils [20, 10]) = mset ?ps" "length [20, 10 :: nat] = length ?ps"
    by simp_all
  with h1 h2 h3 r show ?thesis by (intro conjI)
qed

text \<open>
  C3: for \<open>max \<ge> 1\<close> and every source, finite or not, in every state that the scheduler
  reaches (while priming, in the main loop and in the tail loop) the slot table has at
  most \<open>max\<close> entries, so at most \<open>max\<close> operations are in flight.
\<close>

theorem in_flight_bounded:
  assumes "1 \<le> mx" and "parallelGenerator mx src = Inr s0" and "step\<^sup>*\<^sup>* s0 s"
  shows "int (in_flight s) \<le> mx \<and> int (length (tasks s)) \<le> mx \<and> max_tasks s = mx"
proof -
  from assms(1,2) have s0: "tasks s0 = []" "max_tasks s0 = mx"
    by (auto simp: parallelGenerator_def split: if_splits)
  with assms(1) have "int (length (tasks s0)) \<le> max_tasks s0" by simp
  from table_bound[OF assms(3) this] s0 have "int (length (tasks s)) \<le> mx" "max_tasks s = mx" by simp_all
  moreover have "int (in_flight s) \<le> int (length (tasks s))" using in_flight_le by simp
  ultimately show ?thesis by linarith
qed

theorem in_flight_bounded_witness:
  "(1::int) \<le> 2 \<and>
   parallelGenerator 2 (of_list [Fulfils (1::nat), Rejects ''e'', Fulfils 3]) =
     Inr \<lparr>max_tasks = 2, source = of_list [Fulfils 1, Rejects ''e'', Fulfils 3], tasks = [],
          phase = Priming, yielded = []\<rparr> \<and>
   step\<^sup>*\<^sup>* \<lparr>max_tasks = 2, source = of_list [Fulfils (1::nat), Rejects ''e'', Fulfils 3], tasks = [],
          phase = Priming, yielded = []\<rparr>
        \<lparr>max_tasks = 2, source = Done, tasks = [Task (Fulfils 3), Task (Rejects ''e'')],
          phase = Racing, yielded = [1]\<rparr> \<and>
   in_flight \<lparr>max_tasks = 2, source = Done, tasks = [Task (Fulfils (3::nat)), Task (Rejects ''e'')],
          phase = Racing, yielded = [1]\<rparr> = 2"
proof -
  let ?ps = "[Fulfils (1::nat), Rejects ''e'', Fulfils 3]"
  let ?init = "\<lparr>max_tasks = 2, source = of_list ?ps, tasks = [], phase = Priming, yielded = []\<rparr>"
  let ?st = "\<lparr>max_tasks = 2, source = Done, tasks = [Task (Fulfils (3::nat)), Task (Rejects ''e'')],
          phase = Racing, yielded = [1]\<rparr>"
  have h1: "(1::int) \<le> 2" by simp
  have h2: "parallelGenerator 2 (of_list ?ps) = Inr ?init" by (simp add: parallelGenerator_def)
  have "run_choices [0, 0, 0, 0] ?init = Some ?st" by (simp add: sched_eval)
  then have h3: "step\<^sup>*\<^sup>* ?init ?st" by (rule run_choices_steps)
  from in_flight_bounded[OF h1 h2 h3] have "int (in_flight ?st) \<le> 2" by simp
  moreover have "in_flight ?st = 2" by (simp add: in_flight_def)
  ultimately show ?thesis using h1 h2 h3 by (intro conjI)
qed

text \<open>
  C1 does not hold of the code: \<open>wrap\<close> handles only fulfilment, so the promise made
  for a rejected operation never settles.  With \<open>max = 1\<close> and a source whose first
  operation rejects, the scheduler is stuck in its first race: nothing is yielded, no
  failure is raised, the second operation is never pulled and the generator never
  returns.
\<close>

theorem rejected_operation_blocks_generator:
  "parallelGenerator 1 (of_list [Rejects ''AccessDenied'', Fulfils ()]) =
     Inr \<lparr>max_tasks = 1, source = of_list [Rejects ''AccessDenied'', Fulfils ()], tasks = [],
          phase = Priming, yielded = []\<rparr> \<and>
   run_choices [0, 0]
     \<lparr>max_tasks = 1, source = of_list [Rejects ''AccessDenied'', Fulfils ()], tasks = [],
      phase = Priming, yielded = []\<rparr> =
     Some \<lparr>max_tasks = 1, source = of_list [Fulfils ()], tasks = [Task (Rejects ''AccessDenied'')],
           phase = Racing, yielded = []\<rparr> \<and>
   (\<forall>i. sched_step i
      \<lparr>max_tasks = 1, source = of_list [Fulfils ()], tasks = [Task (Rejects ''AccessDenied'')],
       phase = Racing, yielded = []\<rparr> = None) \<and>
   run_to_end
     \<lparr>max_tasks = 1, source = of_list [Rejects ''AccessDenied'', Fulfils ()], tasks = [],
      phase = Priming, yielded = []\<rparr> = None"
proof -
  let ?ps = "[Rejects ''AccessDenied'', Fulfils ()]"
  let ?init = "\<lparr>max_tasks = 1, source = of_list ?ps, tasks = [], phase = Priming, yielded = []\<rparr>"
  have a: "parallelGenerator 1 (of_list ?ps) = Inr ?init" by (simp add: parallelGenerator_def)
  have b: "run_choices [0, 0] ?init =
     Some \<lparr>max_tasks = 1, source = of_list [Fulfils ()], tasks = [Task (Rejects ''AccessDenied'')],
           phase = Racing, yielded = []\<rparr>"
    by (simp add: sched_eval)
  have c: "sched_step i
      \<lparr>max_tasks = 1, source = of_list [Fulfils ()], tasks = [Task (Rejects ''AccessDenied'')],
       phase = Racing, yielded = []\<rparr> = None" for i
    by (cases i) (simp_all add: sched_step_def step_racing_def race_def)
  have "\<not> list_all fulfils ?ps" by simp
  from run_to_end_None[OF a this] have d: "run_to_end ?init = None" .
  from a b c d show ?thesis by (intro conjI allI)
qed

section \<open>Properties of the retention pipeline\<close>

subsection \<open>Draining a page through the scheduler\<close>




subsection \<open>Pages with absent fields\<close>




subsection \<open>Marking on the model of the object store\<close>

lemma map_of_update_key:
  "map_of (map (\<lambda>(k, x). if k = key then (k, f x) else (k, x)) objs) k' =
     (if k' = key then map_option f (map_of objs key) else map_of objs k')"
  by (induction objs) auto

lemma parse_tagging_old: "parse_tagging ''old=true'' = [(''old'', ''true'')]"
  by (simp add: parse_tagging_def)

lemma copy_in_place_mark:
  "copy_in_place
     (mark_request w bucket key
        \<lparr>ContentType = content_type obj, CacheControl = cache_control obj,
         Metadata = Some (custom_metadata obj)\<rparr> time) time obj =
   marked_object time obj"
  by (simp add: copy_in_place_def mark_request_def marked_object_def parse_tagging_old)

lemma marked_object_again:
  "marked_object t2 (marked_object t1 obj) =
     (marked_object t1 obj)\<lparr>custom_metadata := (custom_metadata (marked_object t1 obj))(''old-at'' \<mapsto> t2),
                            last_modified := t2\<rparr>"
  by (simp add: marked_object_def)

lemma store_world_fields [simp]:
  "headObject (store_world enc) = store_head"
  "copyObject (store_world enc) = store_copy enc"
  "getObjectTagging (store_world enc) = store_tags"
  "listObjects (store_world enc) = store_list"
  "now (store_world enc) = clock"
  "encodeURIComponent (store_world enc) = enc"
  by (simp_all add: store_world_def)

subsection \<open>The commands of a run\<close>

lemma listed_prefixes_simps [simp]:
  "listed_prefixes [] = []"
  "listed_prefixes (c # cs) = listed_prefix c @ listed_prefixes cs"
  "listed_prefixes (xs @ ys) = listed_prefixes xs @ listed_prefixes ys"
  by (simp_all add: listed_prefixes_def)










subsection \<open>Evaluating the example\<close>




lemmas store_eval = send_head_def send_list_def send_copy_def send_tagging_def store_head_def
  store_list_def store_copy_def store_tags_def after_marker_def group_of_def List.map_filter_simps
  example_store_def example_world_def

subsection \<open>The claims on the pipeline\<close>



text \<open>
  C5 as stated fails on the last-modified time, which is an attribute of the object and
  which the copy refreshes, as the purpose of the operation is.
\<close>

theorem keyTaggedAsOld_refreshes_last_modified_counterexample:
  "fst (keyTaggedAsOld example_world ''b'' ''f/run-1-1/a''
          \<lparr>remote = example_store, sent = [], info = []\<rparr>) = Inr () \<and>
   map_option last_modified (object_at example_store ''f/run-1-1/a'') =
     Some ''2025-01-01T00:00:00.000Z'' \<and>
   map_option last_modified
     (object_at (remote (snd (keyTaggedAsOld example_world ''b'' ''f/run-1-1/a''
                                \<lparr>remote = example_store, sent = [], info = []\<rparr>)))
        ''f/run-1-1/a'') =
     Some ''2025-06-01T12:00:00.000Z''"
  by (simp add: keyTaggedAsOld_def mark_request_def store_eval store_world_def example_object_def
      object_at_def copy_in_place_def)

text \<open>
  C5, amended: marking an existing object sends the read of its content type, cache
  control and custom metadata and then one copy in place, whose request keeps the
  content type, keeps the cache control or puts the default for an absent one, replaces
  the metadata by the existing metadata with the field \<open>old-at\<close> set to the current
  time, and replaces the tags by \<open>old=true\<close>.  On the store the object afterwards has
  the same content and content type, these metadata and tags, and the current time as
  its last-modified time; every other object is as before.  Marking a marked object again
  changes only the field \<open>old-at\<close> and the last-modified time.
\<close>

theorem keyTaggedAsOld_effect:
  assumes "remote s = st" and "bucket = bucket_name st" and "object_at st key = Some obj"
    and "req = mark_request (store_world enc) bucket key
                 \<lparr>ContentType = content_type obj, CacheControl = cache_control obj,
                  Metadata = Some (custom_metadata obj)\<rparr> (clock st)"
    and "keyTaggedAsOld (store_world enc) bucket key s = (res, s')"
  shows "res = Inr () \<and>
         sent s' = sent s @ [HeadObjectCommand bucket key, CopyObjectCommand req] \<and>
         info s' = info s \<and>
         copy_Bucket req = bucket \<and> copy_Key req = key \<and>
         copy_ContentType req = content_type obj \<and>
         copy_CacheControl req =
           (case cache_control obj of None \<Rightarrow> default_cache_control | Some c \<Rightarrow> c) \<and>
         MetadataDirective req = ''REPLACE'' \<and>
         copy_Metadata req = (custom_metadata obj)(''old-at'' \<mapsto> clock st) \<and>
         TaggingDirective req = ''REPLACE'' \<and> Tagging req = ''old=true'' \<and>
         object_at (remote s') key = Some (marked_object (clock st) obj) \<and>
         (\<forall>k. k \<noteq> key \<longrightarrow> object_at (remote s') k = object_at st k) \<and>
         body (marked_object (clock st) obj) = body obj \<and>
         content_type (marked_object (clock st) obj) = content_type obj \<and>
         tag_set (marked_object (clock st) obj) = [(''old'', ''true'')] \<and>
         last_modified (marked_object (clock st) obj) = clock st \<and>
         marked_object t2 (marked_object (clock st) obj) =
           (marked_object (clock st) obj)
             \<lparr>custom_metadata := (custom_metadata (marked_object (clock st) obj))(''old-at'' \<mapsto> t2),
              last_modified := t2\<rparr>"
proof -
  let ?w = "store_world enc"
  let ?data = "\<lparr>ContentType = content_type obj, CacheControl = cache_control obj,
                Metadata = Some (custom_metadata obj)\<rparr>"
  from assms(3) have mo: "map_of (objects st) key = Some obj" by (simp add: object_at_def)
  have h: "send_head ?w bucket key s =
             (Inr ?data, s\<lparr>remote := st, sent := sent s @ [HeadObjectCommand bucket key]\<rparr>)"
    using assms(1,2) mo by (simp add: send_head_def store_head_def)
  have src: "CopySource req = copy_Bucket req @ ''/'' @
               join_with ''/'' (map enc (split_on CHR ''/'' (copy_Key req)))"
    by (simp add: assms(4) mark_request_def)
  have rb: "copy_Bucket req = bucket" "copy_Key req = key"
    by (simp_all add: assms(4) mark_request_def)
  have c: "store_copy enc req st =
             (Inr (), st\<lparr>objects :=
                map (\<lambda>(k, x). if k = key then (k, copy_in_place req (clock st) x) else (k, x))
                    (objects st)\<rparr>)"
    using src rb assms(2) mo by (simp add: store_copy_def)
  have k: "keyTaggedAsOld ?w bucket key s =
     (Inr (), s\<lparr>remote := st\<lparr>objects :=
                map (\<lambda>(k, x). if k = key then (k, copy_in_place req (clock st) x) else (k, x))
                    (objects st)\<rparr>,
               sent := sent s @ [HeadObjectCommand bucket key, CopyObjectCommand req]\<rparr>)"
    using c by (simp add: keyTaggedAsOld_def h send_copy_def assms(4)[symmetric])
  from k assms(5) have res: "res = Inr ()" and s': "s' = s\<lparr>remote := st\<lparr>objects :=
                map (\<lambda>(k, x). if k = key then (k, copy_in_place req (clock st) x) else (k, x))
                    (objects st)\<rparr>,
               sent := sent s @ [HeadObjectCommand bucket key, CopyObjectCommand req]\<rparr>"
    by simp_all
  have cm: "copy_in_place req (clock st) obj = marked_object (clock st) obj"
    unfolding assms(4) by (rule copy_in_place_mark)
  have o1: "object_at (remote s') key = Some (marked_object (clock st) obj)"
    by (simp add: s' object_at_def map_of_update_key mo cm)
  have o2: "\<forall>k. k \<noteq> key \<longrightarrow> object_at (remote s') k = object_at st k"
    by (simp add: s' object_at_def map_of_update_key)
  have fields: "copy_ContentType req = content_type obj"
    "copy_CacheControl req = (case cache_control obj of None \<Rightarrow> default_cache_control | Some c \<Rightarrow> c)"
    "MetadataDirective req = ''REPLACE''"
    "copy_Metadata req = (custom_metadata obj)(''old-at'' \<mapsto> clock st)"
    "TaggingDirective req = ''REPLACE''" "Tagging req = ''old=true''"
    by (simp_all add: assms(4) mark_request_def)
  have m: "body (marked_object (clock st) obj) = body obj"
    "content_type (marked_object (clock st) obj) = content_type obj"
    "tag_set (marked_object (clock st) obj) = [(''old'', ''true'')]"
    "last_modified (marked_object (clock st) obj) = clock st"
    by (simp_all add: marked_object_def)
  from res s' rb fields o1 o2 m marked_object_again[of t2 "clock st" obj]
  show ?thesis by simp
qed

theorem keyTaggedAsOld_effect_witness:
  "remote \<lparr>remote = example_store, sent = [], info = []\<rparr> = example_store \<and>
   ''b'' = bucket_name example_store \<and>
   object_at example_store ''f/run-1-1/a'' = Some (example_object ''one'') \<and>
   fst (keyTaggedAsOld example_world ''b'' ''f/run-1-1/a''
          \<lparr>remote = example_store, sent = [], info = []\<rparr>) = Inr () \<and>
   object_at (remote (snd (keyTaggedAsOld example_world ''b'' ''f/run-1-1/a''
                             \<lparr>remote = example_store, sent = [], info = []\<rparr>)))
     ''f/run-1-1/a'' =
     Some (marked_object ''2025-06-01T12:00:00.000Z'' (example_object ''one'')) \<and>
   object_at (remote (snd (keyTaggedAsOld example_world ''b'' ''f/run-1-1/a''
                             \<lparr>remote = example_store, sent = [], info = []\<rparr>)))
     ''f/run-1-2/a'' = Some (example_object ''two'') \<and>
   body (marked_object ''2025-06-01T12:00:00.000Z'' (example_object ''one'')) = ''one'' \<and>
   custom_metadata (marked_object ''2025-06-01T12:00:00.000Z'' (example_object ''one'')) =
     [''custom-key'' \<mapsto> ''custom-value'', ''old-at'' \<mapsto> ''2025-06-01T12:00:00.000Z'']"
proof -
  let ?init = "\<lparr>remote = example_store, sent = [], info = []\<rparr>"
  let ?key = "''f/run-1-1/a''"
  let ?obj = "example_object ''one''"
  let ?call = "keyTaggedAsOld (store_world (\<lambda>s. s)) ''b'' ?key ?init"
  have a1: "remote ?init = example_store" by simp
  have a2: "''b'' = bucket_name example_store" by (simp add: example_store_def)
  have a3: "object_at example_store ?key = Some ?obj"
    by (simp add: object_at_def example_store_def)
  have a5: "?call = (fst ?call, snd ?call)" by simp
  have o2: "object_at example_store ''f/run-1-2/a'' = Some (example_object ''two'')"
    by (simp add: object_at_def example_store_def)
  have c: "clock example_store = ''2025-06-01T12:00:00.000Z''" by (simp add: example_store_def)
  note t = keyTaggedAsOld_effect[OF a1 a2 a3 refl a5, of "''''"]
  from t have r: "fst ?call = Inr ()"
    and m: "object_at (remote (snd ?call)) ?key = Some (marked_object (clock example_store) ?obj)"
    and other: "\<forall>k. k \<noteq> ?key \<longrightarrow> object_at (remote (snd ?call)) k = object_at example_store k"
    by blast+
  from other o2 have o: "object_at (remote (snd ?call)) ''f/run-1-2/a'' = Some (example_object ''two'')"
    by simp
  have b: "body (marked_object ''2025-06-01T12:00:00.000Z'' ?obj) = ''one''"
    "custom_metadata (marked_object ''2025-06-01T12:00:00.000Z'' ?obj) =
     [''custom-key'' \<mapsto> ''custom-value'', ''old-at'' \<mapsto> ''2025-06-01T12:00:00.000Z'']"
    by (simp_all add: marked_object_def example_object_def)
  from a1 a2 a3 r m o b show ?thesis unfolding example_world_def c by (intro conjI)
qed



end
